theory Spec2Isabelle
  imports Complex_Main "HOL-Library.Log_Nat"
begin

section \<open>Exceptions, floats and dates of the Python runtime\<close>

text \<open>
  Both WPS processes (\<^verbatim>\<open>RunNAME\<close> in \<^verbatim>\<open>wps_run_name.py\<close>, \<^verbatim>\<open>PlotNAME\<close> in
  \<^verbatim>\<open>wps_plot_name.py\<close>) signal a rejected request by raising
  \<^verbatim>\<open>InvalidParameterValue\<close>; every other exception of the Python runtime that the
  handlers can let escape is a constructor of its own. The argument is the message.
\<close>

datatype error =
    InvalidParameterValue string
  | ValueError string
  | IndexError string
  | OverflowError string
  | ZeroDivisionError string
  | FileNotFoundError string
  | Exception string

subsection \<open>Binary64 rounding\<close>

text \<open>
  A finite Python float is the rational number it denotes. \<open>rn\<close> is IEEE 754
  round-to-nearest, ties-to-even, onto binary64 with an unbounded upper exponent range
  (53 significant bits, gradual underflow below \<open>2 powi (- 1022)\<close>); the operations that
  use it check for overflow themselves.
\<close>

definition ilog2 :: "rat \<Rightarrow> int" where
  "ilog2 x = (if 1 \<le> x then bitlen \<lfloor>x\<rfloor> - 1 else - bitlen (\<lceil>1 / x\<rceil> - 1))"

definition round_half_even :: "rat \<Rightarrow> int" where
  "round_half_even m =
     (let f = \<lfloor>m\<rfloor>; d = m - of_int f
      in if d < 1 / 2 then f else if 1 / 2 < d then f + 1 else if even f then f else f + 1)"

definition rn :: "rat \<Rightarrow> rat" where
  "rn x =
     (if x = 0 then 0
      else let a = \<bar>x\<bar>;
               e = max (ilog2 a) (- 1022);
               u = 2 powi (e - 52)
           in sgn x * (of_int (round_half_even (a / u)) * u))"

definition float_overflows :: "rat \<Rightarrow> bool" where
  "float_overflows x = (2 ^ 1024 \<le> \<bar>x\<bar>)"

text \<open>
  The \<^verbatim>\<open>float\<close> inputs of a request (\<^verbatim>\<open>data_type='float'\<close>) may also be an infinity or
  NaN. \<open>flt\<close> is Python's \<^verbatim>\<open><\<close> and \<open>feq\<close> its \<^verbatim>\<open>==\<close> on floats: every comparison
  with NaN is false.
\<close>

datatype pyfloat = Finite rat | PosInf | NegInf | NaN

fun flt :: "pyfloat \<Rightarrow> pyfloat \<Rightarrow> bool" where
  "flt (Finite x) (Finite y) = (x < y)"
| "flt (Finite x) PosInf = True"
| "flt NegInf (Finite y) = True"
| "flt NegInf PosInf = True"
| "flt _ _ = False"

definition fgt :: "pyfloat \<Rightarrow> pyfloat \<Rightarrow> bool" where
  "fgt a b = flt b a"

definition feq :: "pyfloat \<Rightarrow> pyfloat \<Rightarrow> bool" where
  "feq a b = (a \<noteq> NaN \<and> a = b)"

subsection \<open>Dates\<close>

text \<open>
  A \<^verbatim>\<open>datetime\<close> is the number of microseconds since 0001-01-01T00:00:00, the smallest
  one Python has; the largest is 9999-12-31T23:59:59.999999. A \<^verbatim>\<open>timedelta\<close> is a
  number of microseconds. Adding a \<^verbatim>\<open>timedelta\<close> to a \<^verbatim>\<open>datetime\<close> raises
  \<^verbatim>\<open>OverflowError\<close> when the result leaves that range. Both dates of a request are
  taken to be of one kind (both naive or both aware), as Python compares no others.
\<close>

type_synonym datetime = int
type_synonym timedelta = int

definition datetime_max :: datetime where
  "datetime_max = 3652059 * 86400000000 - 1"

definition valid_datetime :: "datetime \<Rightarrow> bool" where
  "valid_datetime d = (0 \<le> d \<and> d \<le> datetime_max)"

definition days :: "int \<Rightarrow> timedelta" where
  "days n = n * 86400000000"

definition datetime_add :: "datetime \<Rightarrow> timedelta \<Rightarrow> error + datetime" where
  "datetime_add d t =
     (if valid_datetime (d + t) then Inr (d + t)
      else Inl (OverflowError ''date value out of range''))"

section \<open>The run operation: \<^verbatim>\<open>RunNAME._handler\<close>\<close>

subsection \<open>Strings: \<^verbatim>\<open>in\<close>, \<^verbatim>\<open>split\<close>, \<^verbatim>\<open>int\<close>\<close>

text \<open>
  A string is a list of code points below 256. \<open>split_on c s\<close> is \<^verbatim>\<open>s.split(c)\<close> for a
  one-character separator. \<open>py_int\<close> is \<^verbatim>\<open>int(s)\<close>, with \<open>None\<close> for \<^verbatim>\<open>ValueError\<close>:
  surrounding whitespace is dropped, one sign is allowed, and the digits may be
  separated by single underscores. (The limit on the number of digits that recent
  interpreters add is left out.)
\<close>

fun split_on :: "char \<Rightarrow> string \<Rightarrow> string list" where
  "split_on c [] = [[]]"
| "split_on c (x # xs) =
     (if x = c then [] # split_on c xs
      else (x # hd (split_on c xs)) # tl (split_on c xs))"

definition py_isspace :: "char \<Rightarrow> bool" where
  "py_isspace c = ((of_char c :: nat) \<in> {9, 10, 11, 12, 13, 28, 29, 30, 31, 32, 133, 160})"

definition is_digit :: "char \<Rightarrow> bool" where
  "is_digit c = (48 \<le> (of_char c :: nat) \<and> (of_char c :: nat) \<le> 57)"

definition digit_val :: "char \<Rightarrow> int" where
  "digit_val c = int (of_char c) - 48"

definition strip :: "string \<Rightarrow> string" where
  "strip s = rev (dropWhile py_isspace (rev (dropWhile py_isspace s)))"

fun digits_ok :: "string \<Rightarrow> bool" where
  "digits_ok [] = False"
| "digits_ok [c] = is_digit c"
| "digits_ok (c # d # cs) =
     (is_digit c \<and> (if d = CHR ''_'' then digits_ok cs else digits_ok (d # cs)))"

definition digits_value :: "string \<Rightarrow> int" where
  "digits_value s = foldl (\<lambda>a c. 10 * a + digit_val c) 0 (filter is_digit s)"

definition py_int :: "string \<Rightarrow> int option" where
  "py_int s =
     (case strip s of
        [] \<Rightarrow> None
      | c # r \<Rightarrow>
          if c = CHR ''-'' then (if digits_ok r then Some (- digits_value r) else None)
          else if c = CHR ''+'' then (if digits_ok r then Some (digits_value r) else None)
          else if digits_ok (c # r) then Some (digits_value (c # r)) else None)"

subsection \<open>\<^verbatim>\<open>translate_elevation\<close>\<close>

definition msg_no_dash :: "string \<Rightarrow> string" where
  "msg_no_dash s =
     ''The value '' @ [CHR 0x22] @ s @ [CHR 0x22] @ '' does not contain a '' @ [CHR 0x22]
       @ ''-'' @ [CHR 0x22] @ '' character to define a range, e.g. 0-100''"

definition msg_not_numbers :: "string \<Rightarrow> string" where
  "msg_not_numbers s = ''The value '' @ s @ '' is incorrect: cannot find two numbers''"

definition msg_not_less :: "string \<Rightarrow> string" where
  "msg_not_less s =
     ''The value '' @ s @ '' is incorrect: minimum is not less than maximum''"

definition msg_negative :: "string \<Rightarrow> string" where
  "msg_negative s = ''The value '' @ s @ '' is incorrect: Entire range must be above 0''"

text \<open>
  \<^verbatim>\<open>mini, maxi = elevation_range.split('-')\<close> stands outside the \<^verbatim>\<open>try\<close>: when the split
  has not exactly two parts the unpacking raises a \<^verbatim>\<open>ValueError\<close> that nothing catches.
\<close>

definition translate_elevation :: "string \<Rightarrow> error + int \<times> int" where
  "translate_elevation elevation_range =
     (if CHR ''-'' \<notin> set elevation_range
      then Inl (InvalidParameterValue (msg_no_dash elevation_range))
      else case split_on CHR ''-'' elevation_range of
        [mini, maxi] \<Rightarrow>
          (case (py_int mini, py_int maxi) of
             (Some mini, Some maxi) \<Rightarrow>
               if maxi \<le> mini
               then Inl (InvalidParameterValue (msg_not_less elevation_range))
               else if mini < 0 \<or> maxi < 0
               then Inl (InvalidParameterValue (msg_negative elevation_range))
               else Inr (mini, maxi)
           | _ \<Rightarrow> Inl (InvalidParameterValue (msg_not_numbers elevation_range)))
      | [_] \<Rightarrow> Inl (ValueError ''not enough values to unpack (expected 2, got 1)'')
      | _ \<Rightarrow> Inl (ValueError ''too many values to unpack (expected 2)''))"

fun translate_all :: "string list \<Rightarrow> error + (int \<times> int) list" where
  "translate_all [] = Inr []"
| "translate_all (s # ss) =
     (case translate_elevation s of
        Inl e \<Rightarrow> Inl e
      | Inr r \<Rightarrow> (case translate_all ss of Inl e \<Rightarrow> Inl e | Inr rs \<Rightarrow> Inr (r # rs)))"

subsection \<open>The request and its checks\<close>

text \<open>
  The four bounding-box inputs are shared by the two operations; the other fields are
  the inputs the validation of the run operation reads. \<open>startdate\<close>, \<open>enddate\<close> are
  \<^verbatim>\<open>dateTime\<close> inputs, \<open>time\<close> is an integer and \<open>timeFmt\<close> one of \<^verbatim>\<open>days\<close>, \<^verbatim>\<open>hours\<close>.
\<close>

record bbox_inputs =
  min_lon :: pyfloat
  max_lon :: pyfloat
  min_lat :: pyfloat
  max_lat :: pyfloat

record run_request = bbox_inputs +
  elevationOut :: "string list"
  startdate :: datetime
  enddate :: datetime
  time :: int
  timeFmt :: string

definition run_check_bbox :: "'a bbox_inputs_scheme \<Rightarrow> error + unit" where
  "run_check_bbox request =
     (if flt (min_lon request) (Finite (- 180))
      then Inl (InvalidParameterValue
        ''Bounding box minimum longitude input cannot be below -180'')
      else if fgt (max_lon request) (Finite 180)
      then Inl (InvalidParameterValue
        ''Bounding box maximum longitude input cannot be above 180'')
      else if flt (min_lat request) (Finite (- 90))
      then Inl (InvalidParameterValue
        ''Bounding box minimum latitude input cannot be below -90'')
      else if fgt (max_lat request) (Finite 90)
      then Inl (InvalidParameterValue
        ''Bounding box minimum latitude input cannot be above 90'')
      else Inr ())"

text \<open>
  \<^verbatim>\<open>domains\<close> is the list \<^verbatim>\<open>[min_lat, min_lon, max_lat, max_lon]\<close>; the float literal
  \<^verbatim>\<open>179.9\<close> is the binary64 number nearest to it, \<^verbatim>\<open>-179.875\<close> is exact.
\<close>

definition narrow_domains :: "pyfloat list \<Rightarrow> pyfloat list" where
  "narrow_domains domains =
     (if feq (domains ! 1) (Finite (- 180)) \<and> feq (domains ! 3) (Finite 180)
      then domains[1 := Finite (- (179875 / 1000)), 3 := Finite (rn (1799 / 10))]
      else domains)"

definition run_domains :: "'a bbox_inputs_scheme \<Rightarrow> pyfloat list" where
  "run_domains request =
     narrow_domains [min_lat request, min_lon request, max_lat request, max_lon request]"

text \<open>
  The two date tests of the handler. \<^verbatim>\<open>params['enddate'] + timedelta(days=1)\<close> is
  evaluated first in each of them.
\<close>

definition check_dates :: "datetime \<Rightarrow> datetime \<Rightarrow> error + unit" where
  "check_dates start end =
     (case datetime_add end (days 1) of
        Inl e \<Rightarrow> Inl e
      | Inr end1 \<Rightarrow>
          if end1 \<le> start
          then Inl (InvalidParameterValue ''The end date is earlier than the start date!'')
          else if days 93 \<le> end1 - start
          then Inl (InvalidParameterValue
            ''Can only run across a maximum of three months in one go'')
          else Inr ())"

definition check_time :: "string \<Rightarrow> int \<Rightarrow> error + unit" where
  "check_time fmt t =
     (if fmt = ''days''
      then (if 20 < t
            then Inl (InvalidParameterValue
              ''Can only run NAME over a maximum of 20 days forwards/backwards'')
            else Inr ())
      else (if 20 * 24 < t
            then Inl (InvalidParameterValue
              ''Can only run NAME over a maximum of 20 days forwards/backwards'')
            else Inr ()))"

text \<open>
  The part of the handler before the model is launched, in the order of the source:
  the elevation ranges, the bounding box, the narrowed domain, the dates, the duration.
  On success it yields the two entries of \<^verbatim>\<open>params\<close> that are computed, \<^verbatim>\<open>elevationOut\<close>
  and \<^verbatim>\<open>domain\<close>; every other entry is the input as it came.
\<close>

record run_params =
  ranges :: "(int \<times> int) list"
  domain :: "pyfloat list"

definition run_validate :: "run_request \<Rightarrow> error + run_params" where
  "run_validate request =
     (case translate_all (elevationOut request) of
        Inl e \<Rightarrow> Inl e
      | Inr rs \<Rightarrow>
          (case run_check_bbox request of
             Inl e \<Rightarrow> Inl e
           | Inr _ \<Rightarrow>
               (case check_dates (startdate request) (enddate request) of
                  Inl e \<Rightarrow> Inl e
                | Inr _ \<Rightarrow>
                    (case check_time (timeFmt request) (time request) of
                       Inl e \<Rightarrow> Inl e
                     | Inr _ \<Rightarrow> Inr \<lparr>ranges = rs, domain = run_domains request\<rparr>))))"


section \<open>The plot operation: \<^verbatim>\<open>PlotNAME._handler\<close>\<close>

subsection \<open>The request, the run directory and the plotting library\<close>

text \<open>
  \<open>timestamp\<close> is the optional \<^verbatim>\<open>timestamp\<close> input, already in the form
  \<^verbatim>\<open>'%d/%m/%Y %H:%M UTC'\<close> in which the handler looks it up; \<open>summarise\<close> is one of
  \<^verbatim>\<open>NA\<close>, \<^verbatim>\<open>day\<close>, \<^verbatim>\<open>week\<close>, \<^verbatim>\<open>month\<close>, \<^verbatim>\<open>all\<close>.
\<close>

record plot_request = bbox_inputs +
  filelocation :: string
  summarise :: string
  timestamp :: "string option"

text \<open>
  What the handler cannot compute is given by the environment: the listing of the
  run's \<^verbatim>\<open>outputs\<close> directory, the path \<^verbatim>\<open>plotoptions['outdir']\<close>, the number that
  \<^verbatim>\<open>get_num_dates\<close> of \<^verbatim>\<open>swallow.utils\<close> returns, and the answers of the plotting
  library \<^verbatim>\<open>pynameplot\<close>: how many files a week or month sum of a staging directory
  has, the time columns of a file, and what each call of \<^verbatim>\<open>drawMap\<close> does. A staging
  directory is named by a number, the order in which \<^verbatim>\<open>tempfile.mkdtemp\<close> made it.
  Calls of the library other than \<^verbatim>\<open>drawMap\<close> are taken to return.
\<close>

datatype job =
    Weekly nat nat
  | Monthly nat nat
  | Summed nat
  | Daily nat string
  | Column nat string string

text \<open>
  \<^verbatim>\<open>drawMap\<close> either writes one image, named by the library, into the output
  directory (creating the directory when it is not there), or raises; \<open>Failed True\<close>
  is a call that raises after it created the output directory.
\<close>

datatype outcome = Plotted string | Failed bool

record plot_env =
  outputs :: "string list"
  outdir_path :: string
  num_dates :: int
  week_files :: "nat \<Rightarrow> nat \<Rightarrow> nat"
  month_files :: "nat \<Rightarrow> nat \<Rightarrow> nat"
  timestamps :: "string \<Rightarrow> string list"
  drawMap :: "job \<Rightarrow> outcome"

text \<open>
  The state the handler changes: the staging directories that exist, with their
  listings; the listing of the output directory, \<open>None\<close> while it does not exist; the
  counters \<^verbatim>\<open>plots_made\<close> and \<^verbatim>\<open>oldper\<close>; and the calls of
  \<^verbatim>\<open>response.update_status\<close> so far, in order.
\<close>

record plot_state =
  next_tmp :: nat
  tmp_dirs :: "nat \<rightharpoonup> string list"
  outdir :: "string list option"
  plots_made :: int
  oldper :: int
  statuses :: "(string \<times> int) list"

definition update_status :: "string \<Rightarrow> int \<Rightarrow> plot_state \<Rightarrow> plot_state" where
  "update_status msg percent st = st\<lparr>statuses := statuses st @ [(msg, percent)]\<rparr>"

definition mkdtemp :: "plot_state \<Rightarrow> nat \<times> plot_state" where
  "mkdtemp st =
     (next_tmp st,
      st\<lparr>next_tmp := Suc (next_tmp st), tmp_dirs := (tmp_dirs st)(next_tmp st \<mapsto> [])\<rparr>)"

definition add_entry :: "string \<Rightarrow> string list \<Rightarrow> string list" where
  "add_entry name listing = (if name \<in> set listing then listing else listing @ [name])"

text \<open>\<^verbatim>\<open>shutil.copy(file, dir)\<close> into an existing directory.\<close>

definition copy :: "string \<Rightarrow> nat \<Rightarrow> plot_state \<Rightarrow> plot_state" where
  "copy filename d st =
     (case tmp_dirs st d of
        None \<Rightarrow> st
      | Some listing \<Rightarrow> st\<lparr>tmp_dirs := (tmp_dirs st)(d \<mapsto> add_entry filename listing)\<rparr>)"

definition rmtree :: "nat \<Rightarrow> plot_state \<Rightarrow> error + plot_state" where
  "rmtree d st =
     (case tmp_dirs st d of
        None \<Rightarrow> Inl (FileNotFoundError ''No such file or directory'')
      | Some _ \<Rightarrow> Inr (st\<lparr>tmp_dirs := (tmp_dirs st)(d := None)\<rparr>))"

definition endswith :: "string \<Rightarrow> string \<Rightarrow> bool" where
  "endswith s suffix =
     (length suffix \<le> length s \<and> drop (length s - length suffix) s = suffix)"

fun has_infix :: "string \<Rightarrow> string \<Rightarrow> bool" where
  "has_infix p [] = (p = [])"
| "has_infix p (x # xs) = (take (length p) (x # xs) = p \<or> has_infix p xs)"

subsection \<open>The bounding box\<close>

definition plot_check_bbox :: "'a bbox_inputs_scheme \<Rightarrow> error + unit" where
  "plot_check_bbox request =
     (if flt (min_lon request) (Finite (- 180))
      then Inl (InvalidParameterValue
        ''Bounding box minimum longitude input cannot be below -180'')
      else if fgt (max_lon request) (Finite 180)
      then Inl (InvalidParameterValue
        ''Bounding box maximum longitude input cannot be above 180'')
      else if flt (min_lat request) (Finite (- 90))
      then Inl (InvalidParameterValue
        ''Bounding box minimum latitude input cannot be below -90'')
      else if fgt (max_lat request) (Finite 90)
      then Inl (InvalidParameterValue
        ''Bounding box minimum latitude input cannot be above 90'')
      else Inr ())"

text \<open>\<^verbatim>\<open>int(x)\<close> of a float, for the bounds of the plot options.\<close>

definition trunc :: "rat \<Rightarrow> int" where
  "trunc x = (if 0 \<le> x then \<lfloor>x\<rfloor> else \<lceil>x\<rceil>)"

fun int_of_float :: "pyfloat \<Rightarrow> error + int" where
  "int_of_float (Finite x) = Inr (trunc x)"
| "int_of_float NaN = Inl (ValueError ''cannot convert float NaN to integer'')"
| "int_of_float _ = Inl (OverflowError ''cannot convert float infinity to integer'')"

fun int_all :: "pyfloat list \<Rightarrow> error + int list" where
  "int_all [] = Inr []"
| "int_all (x # xs) =
     (case int_of_float x of
        Inl e \<Rightarrow> Inl e
      | Inr i \<Rightarrow> (case int_all xs of Inl e \<Rightarrow> Inl e | Inr is \<Rightarrow> Inr (i # is)))"

subsection \<open>Grouping the output files\<close>

text \<open>
  \<^verbatim>\<open>groups\<close> is a dictionary from group number to staging directory, kept as the list
  of its items in insertion order. \<^verbatim>\<open>filename[14]\<close> raises \<^verbatim>\<open>IndexError\<close> on a name of
  at most 14 characters; the bare \<^verbatim>\<open>except\<close> turns a failing \<^verbatim>\<open>int\<close> into an
  \<^verbatim>\<open>Exception\<close>.
\<close>

fun group_files ::
  "string list \<Rightarrow> (int \<times> nat) list \<Rightarrow> plot_state \<Rightarrow> error + (int \<times> nat) list \<times> plot_state"
where
  "group_files [] groups st = Inr (groups, st)"
| "group_files (filename # rest) groups st =
     (if \<not> endswith filename ''txt'' then group_files rest groups st
      else if length filename \<le> 14 then Inl (IndexError ''string index out of range'')
      else case py_int [filename ! 14] of
        None \<Rightarrow> Inl (Exception (''Cannot identify groupnumber '' @ [filename ! 14]))
      | Some groupnum \<Rightarrow>
          (case map_of groups groupnum of
             Some d \<Rightarrow> group_files rest groups (copy filename d st)
           | None \<Rightarrow>
               (case mkdtemp st of
                  (d, st1) \<Rightarrow>
                    group_files rest (groups @ [(groupnum, d)]) (copy filename d st1))))"

text \<open>\<^verbatim>\<open>sorted(groups.items())\<close>; the keys of a dictionary are distinct.\<close>

definition sorted_items :: "(int \<times> nat) list \<Rightarrow> (int \<times> nat) list" where
  "sorted_items groups = sort_key fst groups"

subsection \<open>Rendering and progress\<close>

text \<open>
  \<^verbatim>\<open>10 + int((plots_made / float(tot_plots)) * 85)\<close>: both integers are converted to
  floats (\<^verbatim>\<open>OverflowError\<close> when too large), the quotient and the product are rounded
  to binary64, and \<^verbatim>\<open>int\<close> truncates the product (\<^verbatim>\<open>OverflowError\<close> when the product
  overflowed to infinity).
\<close>

definition newper_of :: "int \<Rightarrow> int \<Rightarrow> error + int" where
  "newper_of made tot_plots =
     (if float_overflows (rn (of_int tot_plots))
      then Inl (OverflowError ''int too large to convert to float'')
      else if float_overflows (rn (of_int made))
      then Inl (OverflowError ''int too large to convert to float'')
      else if tot_plots = 0 then Inl (ZeroDivisionError ''float division by zero'')
      else let q = rn (rn (of_int made) / rn (of_int tot_plots)); p = rn (q * 85)
           in if float_overflows p
              then Inl (OverflowError ''cannot convert float infinity to integer'')
              else Inr (10 + trunc p))"

text \<open>
  The five lines after each \<^verbatim>\<open>try: drawMap(...) except: LOGGER.error(...)\<close>, the same at
  each of the six places.
\<close>

definition after_render :: "int \<Rightarrow> plot_state \<Rightarrow> error + plot_state" where
  "after_render tot_plots st =
     (let made = plots_made st + 1
      in case newper_of made tot_plots of
           Inl e \<Rightarrow> Inl e
         | Inr newper \<Rightarrow>
             if oldper st \<noteq> newper
             then Inr ((update_status ''Plotting'' newper (st\<lparr>plots_made := made\<rparr>))
                         \<lparr>oldper := newper\<rparr>)
             else Inr (st\<lparr>plots_made := made\<rparr>))"

definition draw :: "plot_env \<Rightarrow> job \<Rightarrow> plot_state \<Rightarrow> plot_state" where
  "draw env j st =
     (case drawMap env j of
        Plotted f \<Rightarrow>
          st\<lparr>outdir := Some (case outdir st of None \<Rightarrow> [f] | Some l \<Rightarrow> add_entry f l)\<rparr>
      | Failed created \<Rightarrow>
          if created \<and> outdir st = None then st\<lparr>outdir := Some []\<rparr> else st)"

definition render :: "plot_env \<Rightarrow> int \<Rightarrow> job \<Rightarrow> plot_state \<Rightarrow> error + plot_state" where
  "render env tot_plots j st = after_render tot_plots (draw env j st)"

fun render_all :: "plot_env \<Rightarrow> int \<Rightarrow> job list \<Rightarrow> plot_state \<Rightarrow> error + plot_state" where
  "render_all env tot_plots [] st = Inr st"
| "render_all env tot_plots (j # js) st =
     (case render env tot_plots j st of
        Inl e \<Rightarrow> Inl e
      | Inr st1 \<Rightarrow> render_all env tot_plots js st1)"

text \<open>
  The loop over the files of a staging directory, for \<^verbatim>\<open>day\<close> and \<^verbatim>\<open>NA\<close>. With a
  requested timestamp the loop ends (\<^verbatim>\<open>break\<close>) at the first file that has it.
\<close>

fun plot_files ::
  "plot_env \<Rightarrow> int \<Rightarrow> string \<Rightarrow> string option \<Rightarrow> nat \<Rightarrow> string list \<Rightarrow> plot_state
    \<Rightarrow> error + plot_state"
where
  "plot_files env tot_plots summ ts d [] st = Inr st"
| "plot_files env tot_plots summ ts d (filename # rest) st =
     (if has_infix ''_group'' filename \<and> endswith filename ''.txt''
      then
        if summ = ''day''
        then (case render env tot_plots (Daily d filename) st of
                Inl e \<Rightarrow> Inl e
              | Inr st1 \<Rightarrow> plot_files env tot_plots summ ts d rest st1)
        else if summ = ''NA''
        then (case ts of
                Some t \<Rightarrow>
                  if t \<in> set (timestamps env filename)
                  then render env tot_plots (Column d filename t) st
                  else plot_files env tot_plots summ ts d rest st
              | None \<Rightarrow>
                  (case render_all env tot_plots
                          (map (Column d filename) (timestamps env filename)) st of
                     Inl e \<Rightarrow> Inl e
                   | Inr st1 \<Rightarrow> plot_files env tot_plots summ ts d rest st1))
        else plot_files env tot_plots summ ts d rest st
      else plot_files env tot_plots summ ts d rest st)"

text \<open>The renders of one group, by summarisation mode.\<close>

definition plot_mode ::
  "plot_env \<Rightarrow> int \<Rightarrow> string \<Rightarrow> string option \<Rightarrow> nat \<Rightarrow> plot_state \<Rightarrow> error + plot_state"
where
  "plot_mode env tot_plots summ ts d st =
     (if summ = ''week''
      then render_all env tot_plots
             (map (Weekly d) (filter (\<lambda>w. week_files env d w \<noteq> 0) [1..<53])) st
      else if summ = ''month''
      then render_all env tot_plots
             (map (Monthly d) (filter (\<lambda>m. month_files env d m \<noteq> 0) [1..<13])) st
      else if summ = ''all''
      then render env tot_plots (Summed d) st
      else case tmp_dirs st d of
             None \<Rightarrow> Inl (FileNotFoundError ''No such file or directory'')
           | Some listing \<Rightarrow> plot_files env tot_plots summ ts d listing st)"

text \<open>One turn of the loop over the groups: the renders, then \<^verbatim>\<open>shutil.rmtree(tmpdir)\<close>.\<close>

definition plot_group ::
  "plot_env \<Rightarrow> int \<Rightarrow> string \<Rightarrow> string option \<Rightarrow> nat \<Rightarrow> plot_state \<Rightarrow> error + plot_state"
where
  "plot_group env tot_plots summ ts d st =
     (case plot_mode env tot_plots summ ts d st of
        Inl e \<Rightarrow> Inl e
      | Inr st1 \<Rightarrow> rmtree d st1)"

fun plot_groups ::
  "plot_env \<Rightarrow> int \<Rightarrow> string \<Rightarrow> string option \<Rightarrow> (int \<times> nat) list \<Rightarrow> plot_state
    \<Rightarrow> error + plot_state"
where
  "plot_groups env tot_plots summ ts [] st = Inr st"
| "plot_groups env tot_plots summ ts ((groupnum, tmpdir) # gs) st =
     (case plot_group env tot_plots summ ts tmpdir st of
        Inl e \<Rightarrow> Inl e
      | Inr st1 \<Rightarrow> plot_groups env tot_plots summ ts gs st1)"

subsection \<open>Packaging the result\<close>

text \<open>
  \<^verbatim>\<open>response.outputs['FileContents']\<close>: its format (the MIME type) and either inline
  data or a file. \<open>archive\<close> is the zip file that \<^verbatim>\<open>shutil.make_archive\<close> wrote, with
  the entries it holds: those of the output directory.
\<close>

datatype payload = Data string | File string

record file_contents =
  data_format :: string
  content :: payload
  archive :: "(string \<times> string list) option"

definition path_join :: "string \<Rightarrow> string \<Rightarrow> string" where
  "path_join a b = (if a = [] \<or> last a = CHR ''/'' then a @ b else a @ ''/'' @ b)"

definition package :: "string \<Rightarrow> string \<Rightarrow> string list option \<Rightarrow> file_contents" where
  "package location path dir =
     (case dir of
        None \<Rightarrow>
          \<lparr>data_format = ''text/plain'',
           content = Data ''No plots created, check input options'',
           archive = None\<rparr>
      | Some listing \<Rightarrow>
          if length listing = 1
          then \<lparr>data_format = ''image/png'',
                content = File (path_join path (listing ! 0)),
                archive = None\<rparr>
          else \<lparr>data_format = ''application/x-zipped-shp'',
                content = File (location @ ''_plots'' @ ''.zip''),
                archive = Some (location @ ''_plots'' @ ''.zip'', listing)\<rparr>)"

subsection \<open>The handler\<close>

text \<open>
  \<^verbatim>\<open>glob.glob(os.path.join(rundir, 'outputs', '*_group*.txt'))\<close>: a leading \<^verbatim>\<open>*\<close> matches
  no name that starts with a dot.
\<close>

definition glob_match :: "string \<Rightarrow> bool" where
  "glob_match name =
     (name \<noteq> [] \<and> hd name \<noteq> CHR ''.'' \<and> endswith name ''.txt''
      \<and> has_infix ''_group'' (take (length name - 4) name))"

definition init_state :: plot_state where
  "init_state =
     \<lparr>next_tmp = 0, tmp_dirs = Map.empty, outdir = None, plots_made = 0, oldper = 10,
      statuses = []\<rparr>"

text \<open>
  The handler from the bounding-box test on. The options \<^verbatim>\<open>scale\<close>, \<^verbatim>\<open>station\<close>,
  \<^verbatim>\<open>projection\<close> and \<^verbatim>\<open>colormap\<close> are passed to the library and are not part of the
  model. A request with a timestamp has its \<^verbatim>\<open>summarise\<close> set to \<^verbatim>\<open>NA\<close>.
\<close>

definition plot_handler ::
  "plot_env \<Rightarrow> plot_request \<Rightarrow> error + plot_state \<times> file_contents"
where
  "plot_handler env request =
     (case plot_check_bbox request of
        Inl e \<Rightarrow> Inl e
      | Inr _ \<Rightarrow>
     (case int_all [min_lon request, max_lon request, min_lat request, max_lat request] of
        Inl e \<Rightarrow> Inl e
      | Inr _ \<Rightarrow>
     if filter glob_match (outputs env) = []
     then Inl (InvalidParameterValue
       (''Unable to find any output files. File names must be named '' @ [CHR 0x22]
          @ ''*_group*.txt'' @ [CHR 0x22]))
     else
       let summ = (if timestamp request \<noteq> None then ''NA'' else summarise request);
           st0 = update_status ''Processed plot parameters'' 5 init_state
       in case group_files (outputs env) [] st0 of
            Inl e \<Rightarrow> Inl e
          | Inr (groups, st1) \<Rightarrow>
              let tot_plots = num_dates env * int (length groups);
                  st2 = (update_status ''Plotting'' 10 (st1\<lparr>plots_made := 0\<rparr>))\<lparr>oldper := 10\<rparr>
              in case plot_groups env tot_plots summ (timestamp request)
                        (sorted_items groups) st2 of
                   Inl e \<Rightarrow> Inl e
                 | Inr st3 \<Rightarrow>
                     let st4 = update_status ''Formatting output'' 95 st3;
                         out = package (filelocation request) (outdir_path env) (outdir st4)
                     in Inr (update_status ''done'' 100 st4, out)))"


section \<open>Notions used to state the properties\<close>

text \<open>The unit in the last place of the binary64 numbers around \<open>x\<close>.\<close>

definition ulp :: "rat \<Rightarrow> rat" where
  "ulp x = 2 powi (max (ilog2 x) (- 1022) - 52)"

text \<open>
  The calls of \<^verbatim>\<open>drawMap\<close> that the loops of one group make, in order: the plot jobs of
  the group, given the listing of its staging directory.
\<close>

fun file_jobs :: "plot_env \<Rightarrow> string \<Rightarrow> string option \<Rightarrow> nat \<Rightarrow> string list \<Rightarrow> job list" where
  "file_jobs env summ ts d [] = []"
| "file_jobs env summ ts d (filename # rest) =
     (if has_infix ''_group'' filename \<and> endswith filename ''.txt''
      then
        if summ = ''day'' then Daily d filename # file_jobs env summ ts d rest
        else if summ = ''NA''
        then (case ts of
                Some t \<Rightarrow>
                  if t \<in> set (timestamps env filename) then [Column d filename t]
                  else file_jobs env summ ts d rest
              | None \<Rightarrow>
                  map (Column d filename) (timestamps env filename)
                    @ file_jobs env summ ts d rest)
        else file_jobs env summ ts d rest
      else file_jobs env summ ts d rest)"

definition group_jobs :: "plot_env \<Rightarrow> string \<Rightarrow> string option \<Rightarrow> nat \<Rightarrow> string list \<Rightarrow> job list" where
  "group_jobs env summ ts d listing =
     (if summ = ''week''
      then map (Weekly d) (filter (\<lambda>w. week_files env d w \<noteq> 0) [1..<53])
      else if summ = ''month''
      then map (Monthly d) (filter (\<lambda>m. month_files env d m \<noteq> 0) [1..<13])
      else if summ = ''all'' then [Summed d]
      else file_jobs env summ ts d listing)"

text \<open>
  The percentage computed after the \<open>k\<close>-th render, and the percentages of the
  \<^verbatim>\<open>Plotting\<close> updates after \<open>n\<close> renders: the first, 10, and then each computed
  percentage that differs from the one before it.
\<close>

definition percent_at :: "int \<Rightarrow> int \<Rightarrow> int" where
  "percent_at tot_plots k = (case newper_of k tot_plots of Inr v \<Rightarrow> v | Inl _ \<Rightarrow> 0)"

definition emitted :: "int \<Rightarrow> int \<Rightarrow> int list" where
  "emitted tot_plots n = remdups_adj (10 # map (percent_at tot_plots) [1..n])"

definition forget_outdir :: "plot_state \<Rightarrow> plot_state" where
  "forget_outdir st = st\<lparr>outdir := None\<rparr>"

text \<open>The group number of an output file, and the files that the grouping reads.\<close>

definition group_of :: "string \<Rightarrow> int" where
  "group_of filename = digit_val (filename ! 14)"

definition txt_files :: "string list \<Rightarrow> string list" where
  "txt_files files = filter (\<lambda>f. endswith f ''txt'') files"

definition start_state :: plot_state where
  "start_state = update_status ''Processed plot parameters'' 5 init_state"


text \<open>The decimal numeral of a natural number, and the requests used as examples.\<close>

fun decimal :: "nat \<Rightarrow> string" where
  "decimal n =
     (if n < 10 then [char_of (48 + n)]
      else decimal (n div 10) @ [char_of (48 + n mod 10)])"

declare decimal.simps [simp del]

text \<open>
  A run request with the default bounding box and elevation range, from
  2020-01-01T00:00:00 to 2020-01-31T00:00:00, and one that starts at noon of the day
  on whose midnight it ends.
\<close>

definition default_run :: run_request where
  "default_run =
     \<lparr>min_lon = Finite (- 180), max_lon = Finite 180, min_lat = Finite (- 90),
      max_lat = Finite 90, elevationOut = [''0-100''],
      startdate = 63713433600000000, enddate = 63716025600000000,
      time = 1, timeFmt = ''days''\<rparr>"

definition noon_run :: run_request where
  "noon_run = default_run\<lparr>startdate := 63713476800000000, enddate := 63713433600000000\<rparr>"

definition inverted_box :: bbox_inputs where
  "inverted_box =
     \<lparr>min_lon = Finite 10, max_lon = Finite 5, min_lat = Finite (- 90), max_lat = Finite 90\<rparr>"


text \<open>
  A plot request for the sum over the whole run, and a run directory with three output
  files in two groups, one time column in each file, where the render of the first
  group fails.
\<close>

definition example_request :: plot_request where
  "example_request =
     \<lparr>min_lon = Finite (- 180), max_lon = Finite 180, min_lat = Finite (- 90),
      max_lat = Finite 90, filelocation = ''run1'', summarise = ''all'', timestamp = None\<rparr>"

definition example_env :: plot_env where
  "example_env =
     \<lparr>outputs = [''NAME_run_group1_a.txt'', ''NAME_run_group1_b.txt'', ''NAME_run_group2_a.txt''],
      outdir_path = ''/runs/run1/plots_0'',
      num_dates = 1,
      week_files = (\<lambda>d w. 0),
      month_files = (\<lambda>d m. 0),
      timestamps = (\<lambda>f. [''01/01/2020 00:00 UTC'']),
      drawMap = (\<lambda>j. case j of
                   Summed d \<Rightarrow> if d = 0 then Failed False else Plotted ''run1_summed_all.png''
                 | Column d f c \<Rightarrow> Plotted (f @ ''.png'')
                 | _ \<Rightarrow> Failed False)\<rparr>"

text \<open>
  What holds of the progress state between two renders: every percentage so far was
  computed without error, the updates are those of \<open>emitted\<close>, and \<^verbatim>\<open>oldper\<close> is the
  percentage of the last update.
\<close>

definition trace_inv :: "int \<Rightarrow> plot_state \<Rightarrow> bool" where
  "trace_inv tot_plots st =
     (0 \<le> plots_made st
      \<and> (\<forall>k. 1 \<le> k \<and> k \<le> plots_made st \<longrightarrow> newper_of k tot_plots = Inr (percent_at tot_plots k))
      \<and> statuses st =
          (''Processed plot parameters'', 5)
            # map (Pair ''Plotting'') (emitted tot_plots (plots_made st))
      \<and> oldper st = last (emitted tot_plots (plots_made st)))"

text \<open>
  What holds of \<^verbatim>\<open>groups\<close> and the staging directories after the files \<open>seen\<close> were
  read: one directory per group number, numbered in order of creation, each holding
  the files of its group.
\<close>

definition groups_inv :: "(int \<times> nat) list \<Rightarrow> plot_state \<Rightarrow> string list \<Rightarrow> bool" where
  "groups_inv groups st seen =
     (distinct (map fst groups)
      \<and> map snd groups = [0..<next_tmp st]
      \<and> fst ` set groups = group_of ` set (txt_files seen)
      \<and> (\<forall>g d. (g, d) \<in> set groups
            \<longrightarrow> tmp_dirs st d = Some (filter (\<lambda>f. group_of f = g) (txt_files seen)))
      \<and> (\<forall>d. next_tmp st \<le> d \<longrightarrow> tmp_dirs st d = None))"

section \<open>Binary64 rounding: properties\<close>

lemma pow2_less_exp:
  assumes "(2::rat) powi a < 2 powi b"
  shows "a < b"
proof (rule ccontr)
  assume "\<not> a < b"
  then have "b \<le> a" by simp
  then have "(2::rat) powi b \<le> 2 powi a" by (rule power_int_increasing) simp
  with assms show False by simp
qed

lemma ilog2_bounds:
  assumes "0 < x"
  shows "2 powi (ilog2 x) \<le> x \<and> x < 2 powi (ilog2 x + 1)"
proof (cases "1 \<le> x")
  case True
  define f where "f = \<lfloor>x\<rfloor>"
  have f1: "1 \<le> f" using True by (simp add: f_def le_floor_iff)
  then have f0: "0 < f" by simp
  have b1: "1 \<le> bitlen f" using f0 by (simp add: bitlen_alt_def)
  from bitlen_bounds[OF f0] have lo: "2 ^ nat (bitlen f - 1) \<le> f" and hi: "f < 2 ^ nat (bitlen f)"
    by auto
  have e: "ilog2 x = bitlen f - 1" using True by (simp add: ilog2_def f_def)
  have "(of_int (2 ^ nat (bitlen f - 1)) :: rat) \<le> of_int f" using lo by (simp only: of_int_le_iff)
  also have "\<dots> \<le> x" by (simp add: f_def)
  finally have A: "2 powi (ilog2 x) \<le> x" using b1 by (simp add: e power_int_def)
  have "f + 1 \<le> 2 ^ nat (bitlen f)" using hi by simp
  then have "(of_int (f + 1) :: rat) \<le> of_int (2 ^ nat (bitlen f))" by (simp only: of_int_le_iff)
  moreover have "x < of_int (f + 1)" using floor_correct[of x] by (simp add: f_def)
  ultimately have "x < of_int (2 ^ nat (bitlen f))" by linarith
  then have B: "x < 2 powi (ilog2 x + 1)" using b1 by (simp add: e power_int_def)
  from A B show ?thesis by simp
next
  case False
  then have x1: "x < 1" by simp
  define c where "c = \<lceil>1 / x\<rceil>"
  have inv: "1 < 1 / x" using assms x1 by simp
  have c2: "2 \<le> c" unfolding c_def using inv by (simp add: le_ceiling_iff)
  then have c0: "0 < c - 1" by simp
  define b where "b = bitlen (c - 1)"
  have b1: "1 \<le> b" using c0 by (simp add: b_def bitlen_alt_def)
  from bitlen_bounds[OF c0] have lo: "2 ^ nat (b - 1) \<le> c - 1" and hi: "c - 1 < 2 ^ nat b"
    by (auto simp: b_def)
  have e: "ilog2 x = - b" using False by (simp add: ilog2_def b_def c_def)
  have "c \<le> 2 ^ nat b" using hi by simp
  then have "(of_int c :: rat) \<le> of_int (2 ^ nat b)" by (simp only: of_int_le_iff)
  then have "(of_int c :: rat) \<le> 2 ^ nat b" by simp
  moreover have "1 / x \<le> of_int c" by (simp add: c_def)
  ultimately have "1 / x \<le> 2 ^ nat b" by (rule order_trans[rotated])
  then have "1 \<le> 2 ^ nat b * x" using assms by (simp add: field_simps)
  then have A: "2 powi (ilog2 x) \<le> x" using b1
    by (simp add: e power_int_def field_simps power_inverse)
  have "(of_int (2 ^ nat (b - 1)) :: rat) \<le> of_int (c - 1)" using lo by (simp only: of_int_le_iff)
  then have "(2 ^ nat (b - 1) :: rat) \<le> of_int (c - 1)" by simp
  moreover have "of_int (c - 1) < 1 / x" unfolding c_def by linarith
  ultimately have "2 ^ nat (b - 1) < 1 / x" by (rule order_le_less_trans)
  then have lt: "2 ^ nat (b - 1) * x < 1" using assms by (simp add: field_simps)
  have "(2::rat) powi (- b + 1) = 2 powi (- (b - 1))" by simp
  also have "\<dots> = 1 / 2 powi (b - 1)" by (rule power_int_minus_divide)
  also have "\<dots> = 1 / 2 ^ nat (b - 1)" using b1 by (simp add: power_int_nonneg_exp)
  finally have p: "(2::rat) powi (- b + 1) = 1 / 2 ^ nat (b - 1)" .
  have "x < 1 / 2 ^ nat (b - 1)" using lt by (simp add: field_simps)
  then have B: "x < 2 powi (ilog2 x + 1)" by (simp only: e p)
  from A B show ?thesis by simp
qed

lemma ilog2_unique:
  assumes "2 powi e \<le> x" "x < 2 powi (e + 1)"
  shows "ilog2 x = e"
proof -
  have x0: "0 < x" using assms(1) by (smt (verit) zero_less_power_int zero_less_numeral order_less_le_trans)
  from ilog2_bounds[OF x0] have a: "2 powi (ilog2 x) \<le> x" and b: "x < 2 powi (ilog2 x + 1)" by auto
  have "(2::rat) powi e < 2 powi (ilog2 x + 1)" using assms(1) b by linarith
  then have "e < ilog2 x + 1"
    by (rule pow2_less_exp)
  moreover have "(2::rat) powi (ilog2 x) < 2 powi (e + 1)" using a assms(2) by linarith
  then have "ilog2 x < e + 1"
    by (rule pow2_less_exp)
  ultimately show ?thesis by simp
qed

lemma ilog2_mono:
  assumes "0 < x" "x \<le> y"
  shows "ilog2 x \<le> ilog2 y"
proof -
  have y0: "0 < y" using assms by simp
  from ilog2_bounds[OF assms(1)] ilog2_bounds[OF y0]
  have "(2::rat) powi (ilog2 x) < 2 powi (ilog2 y + 1)" using assms(2) by linarith
  then have "ilog2 x < ilog2 y + 1"
    by (rule pow2_less_exp)
  then show ?thesis by simp
qed


lemma rhe_of_int: "round_half_even (of_int n) = n"
  by (simp add: round_half_even_def)

lemma rhe_ge_floor: "\<lfloor>m\<rfloor> \<le> round_half_even m"
  by (simp add: round_half_even_def Let_def)

lemma rhe_le_floor1: "round_half_even m \<le> \<lfloor>m\<rfloor> + 1"
  by (simp add: round_half_even_def Let_def)

lemma rhe_mono:
  assumes "x \<le> y"
  shows "round_half_even x \<le> round_half_even y"
proof (cases "\<lfloor>x\<rfloor> = \<lfloor>y\<rfloor>")
  case True
  have "x - of_int \<lfloor>y\<rfloor> \<le> y - of_int \<lfloor>y\<rfloor>" using assms by simp
  then show ?thesis using True by (auto simp: round_half_even_def Let_def)
next
  case False
  then have "\<lfloor>x\<rfloor> < \<lfloor>y\<rfloor>" using floor_mono[OF assms] by simp
  then have "round_half_even x \<le> \<lfloor>y\<rfloor>" using rhe_le_floor1[of x] by simp
  then show ?thesis using rhe_ge_floor[of y] by simp
qed

lemma ulp_pos: "0 < ulp x"
  by (simp add: ulp_def)

lemma rn_pos: "0 < x \<Longrightarrow> rn x = of_int (round_half_even (x / ulp x)) * ulp x"
  by (simp add: rn_def ulp_def Let_def)

lemma ulp_scale: "2 ^ 52 * ulp x = 2 powi (max (ilog2 x) (- 1022))"
proof -
  have "(2::rat) powi (max (ilog2 x) (- 1022) - 52) = 2 powi (max (ilog2 x) (- 1022)) / 2 powi 52"
    by (rule power_int_diff) simp
  then show ?thesis by (simp add: ulp_def)
qed

lemma rn_pos_mono:
  assumes "0 < x" "x \<le> y"
  shows "rn x \<le> rn y"
proof -
  have y0: "0 < y" using assms by simp
  define Ex where "Ex = max (ilog2 x) (- 1022)"
  define Ey where "Ey = max (ilog2 y) (- 1022)"
  have le: "Ex \<le> Ey" using ilog2_mono[OF assms] by (simp add: Ex_def Ey_def)
  show ?thesis
  proof (cases "Ex = Ey")
    case True
    then have u: "ulp x = ulp y" by (simp add: ulp_def Ex_def Ey_def)
    have "x / ulp y \<le> y / ulp y" using assms(2) ulp_pos[of y] by (simp add: divide_right_mono)
    then have "round_half_even (x / ulp y) \<le> round_half_even (y / ulp y)" by (rule rhe_mono)
    then have "(of_int (round_half_even (x / ulp y)) :: rat) \<le> of_int (round_half_even (y / ulp y))"
      by (simp only: of_int_le_iff)
    then have "of_int (round_half_even (x / ulp y)) * ulp y \<le> of_int (round_half_even (y / ulp y)) * ulp y"
      using ulp_pos[of y] by (simp add: mult_right_mono)
    then show ?thesis by (simp add: rn_pos[OF assms(1)] rn_pos[OF y0] u)
  next
    case False
    then have lt: "Ex < Ey" using le by simp
    then have Ey: "Ey = ilog2 y" by (auto simp: Ex_def Ey_def)
    have ylo: "2 powi Ey \<le> y" using ilog2_bounds[OF y0] Ey by simp
    have sy: "2 ^ 52 * ulp y = 2 powi Ey" unfolding Ey_def by (rule ulp_scale)
    have "2 ^ 52 * ulp y \<le> y" using ylo sy by simp
    then have "(2 ^ 52 :: rat) \<le> y / ulp y" using ulp_pos[of y] by (simp add: field_simps)
    then have "(of_int (2 ^ 52) :: rat) \<le> y / ulp y" by simp
    then have "round_half_even (of_int (2 ^ 52)) \<le> round_half_even (y / ulp y)" by (rule rhe_mono)
    then have "2 ^ 52 \<le> round_half_even (y / ulp y)" by (simp only: rhe_of_int)
    then have "(of_int (2 ^ 52) :: rat) \<le> of_int (round_half_even (y / ulp y))"
      by (simp only: of_int_le_iff)
    then have "of_int (2 ^ 52) * ulp y \<le> of_int (round_half_even (y / ulp y)) * ulp y"
      using ulp_pos[of y] by (simp only: mult_right_mono less_imp_le)
    then have A: "2 powi Ey \<le> rn y" using sy by (simp add: rn_pos[OF y0])
    have "ilog2 x + 1 \<le> Ex + 1" by (simp add: Ex_def)
    then have "(2::rat) powi (ilog2 x + 1) \<le> 2 powi (Ex + 1)" by (rule power_int_increasing) simp
    then have xhi: "x < 2 powi (Ex + 1)" using ilog2_bounds[OF assms(1)] by simp
    have sx: "2 ^ 52 * ulp x = 2 powi Ex" unfolding Ex_def by (rule ulp_scale)
    have p1: "(2::rat) powi (Ex + 1) = 2 powi Ex * 2" by (rule power_int_add_1) simp
    have sx2: "2 ^ 53 * ulp x = 2 powi (Ex + 1)" using sx by (simp add: p1)
    have "x < 2 ^ 53 * ulp x" using xhi sx2 by simp
    then have "x / ulp x \<le> 2 ^ 53" using ulp_pos[of x] by (simp add: field_simps)
    then have "x / ulp x \<le> of_int (2 ^ 53)" by simp
    then have "round_half_even (x / ulp x) \<le> round_half_even (of_int (2 ^ 53))" by (rule rhe_mono)
    then have "round_half_even (x / ulp x) \<le> 2 ^ 53" by (simp only: rhe_of_int)
    then have "(of_int (round_half_even (x / ulp x)) :: rat) \<le> of_int (2 ^ 53)"
      by (simp only: of_int_le_iff)
    then have "of_int (round_half_even (x / ulp x)) * ulp x \<le> of_int (2 ^ 53) * ulp x"
      using ulp_pos[of x] by (simp only: mult_right_mono less_imp_le)
    then have "rn x \<le> 2 powi (Ex + 1)" using sx2 by (simp add: rn_pos[OF assms(1)])
    moreover have "(2::rat) powi (Ex + 1) \<le> 2 powi Ey" using lt by (intro power_int_increasing) auto
    ultimately show ?thesis using A by linarith
  qed
qed

lemma rn_zero: "rn 0 = 0"
  by (simp add: rn_def)

lemma rn_minus: "rn (- x) = - rn x"
  by (simp add: rn_def Let_def)

lemma rn_nonneg:
  assumes "0 \<le> x"
  shows "0 \<le> rn x"
proof (cases "x = 0")
  case True
  then show ?thesis by (simp add: rn_zero)
next
  case False
  then have x0: "0 < x" using assms by simp
  have "0 \<le> x / ulp x" using x0 ulp_pos[of x] by simp
  then have "0 \<le> \<lfloor>x / ulp x\<rfloor>" by simp
  then have "0 \<le> round_half_even (x / ulp x)" using rhe_ge_floor[of "x / ulp x"] by linarith
  then show ?thesis using ulp_pos[of x] by (simp add: rn_pos[OF x0])
qed

lemma rn_mono:
  assumes "x \<le> y"
  shows "rn x \<le> rn y"
proof -
  consider "0 < x" | "x \<le> 0" "0 \<le> y" | "y < 0" by linarith
  then show ?thesis
  proof cases
    case 1
    then show ?thesis using assms by (rule rn_pos_mono)
  next
    case 2
    have "0 \<le> rn (- x)" using 2 by (intro rn_nonneg) simp
    then have "rn x \<le> 0" by (simp add: rn_minus)
    then show ?thesis using rn_nonneg[OF 2(2)] by simp
  next
    case 3
    have "rn (- y) \<le> rn (- x)" using 3 assms by (intro rn_pos_mono) auto
    then show ?thesis by (simp add: rn_minus)
  qed
qed

lemma rn_eval_pos:
  assumes "2 powi e \<le> x" "x < 2 powi (e + 1)" "- 1022 \<le> e"
  shows "rn x = of_int (round_half_even (x / 2 powi (e - 52))) * 2 powi (e - 52)"
proof -
  have e: "ilog2 x = e" using assms(1,2) by (rule ilog2_unique)
  have "(0::rat) < 2 powi e" by simp
  then have x0: "0 < x" using assms(1) by linarith
  have u: "ulp x = 2 powi (e - 52)" using assms(3) by (simp add: ulp_def e)
  show ?thesis by (simp add: rn_pos[OF x0] u)
qed

lemma rn_nat_exact:
  assumes "0 < n" "n < 2 ^ 53"
  shows "rn (of_int n) = of_int n"
proof -
  define x :: rat where "x = of_int n"
  have x0: "0 < x" using assms(1) by (simp add: x_def)
  define e where "e = ilog2 x"
  from ilog2_bounds[OF x0] have lo: "2 powi e \<le> x" and hi: "x < 2 powi (e + 1)"
    by (auto simp: e_def)
  have "(1::rat) \<le> x" using assms(1) by (simp add: x_def)
  then have "(2::rat) powi 0 < 2 powi (e + 1)" using hi by simp
  then have e0: "0 \<le> e" using pow2_less_exp by fastforce
  have "x < 2 ^ 53" using assms(2) unfolding x_def
    by (metis of_int_less_iff of_int_numeral of_int_power)
  then have "(2::rat) powi e < 2 powi 53" using lo by simp
  then have e52: "e \<le> 52" using pow2_less_exp by fastforce
  define k where "k = nat (52 - e)"
  have ke: "e - 52 = - int k" using e52 by (simp add: k_def)
  have u: "(2::rat) powi (e - 52) = 1 / 2 ^ k"
    unfolding ke by (simp add: power_int_minus_divide)
  have "x / (1 / 2 ^ k) = of_int (n * 2 ^ k)" by (simp add: x_def)
  then have r: "round_half_even (x / (1 / 2 ^ k)) = n * 2 ^ k" by (simp only: rhe_of_int)
  have "rn x = of_int (round_half_even (x / 2 powi (e - 52))) * 2 powi (e - 52)"
    by (rule rn_eval_pos[OF lo hi]) (use e0 in simp)
  also have "\<dots> = of_int (n * 2 ^ k) * (1 / 2 ^ k)" by (simp only: u r)
  also have "\<dots> = of_int n" by simp
  finally show ?thesis by (simp only: x_def)
qed

lemma rn_int_exact:
  assumes "\<bar>n\<bar> < 2 ^ 53"
  shows "rn (of_int n) = of_int n"
proof -
  consider "0 < n" | "n = 0" | "n < 0" by linarith
  then show ?thesis
  proof cases
    case 1
    then show ?thesis using assms by (intro rn_nat_exact) auto
  next
    case 2
    then show ?thesis by (simp add: rn_zero)
  next
    case 3
    then have "rn (of_int (- n)) = of_int (- n)" using assms by (intro rn_nat_exact) auto
    then show ?thesis by (simp add: rn_minus)
  qed
qed

lemma rhe_frac:
  assumes "0 < b"
  shows "round_half_even (of_int a / of_int b) =
     (if 2 * (a mod b) < b then a div b
      else if b < 2 * (a mod b) then a div b + 1
      else if even (a div b) then a div b else a div b + 1)"
proof -
  have f: "\<lfloor>(of_int a :: rat) / of_int b\<rfloor> = a div b" by (simp add: floor_divide_of_int_eq)
  have "(of_int a :: rat) = of_int (a div b * b + a mod b)" by simp
  then have "(of_int a :: rat) = of_int (a div b) * of_int b + of_int (a mod b)"
    by (simp only: of_int_add of_int_mult)
  then have "(of_int a :: rat) / of_int b =
      (of_int (a div b) * of_int b + of_int (a mod b)) / of_int b" by simp
  also have "\<dots> = of_int (a div b) + of_int (a mod b) / of_int b"
    using assms by (simp add: add_divide_distrib)
  finally have "(of_int a :: rat) / of_int b = of_int (a div b) + of_int (a mod b) / of_int b" .
  then have d: "(of_int a :: rat) / of_int b - of_int (a div b) = of_int (a mod b) / of_int b"
    by simp
  have c1: "(of_int (a mod b) / of_int b < (1::rat) / 2) = (2 * (a mod b) < b)"
  proof -
    have "(of_int (a mod b) / of_int b < (1::rat) / 2) = ((of_int (2 * (a mod b)) :: rat) < of_int b)"
      using assms by (simp add: field_simps)
    then show ?thesis by (simp only: of_int_less_iff)
  qed
  have c2: "((1::rat) / 2 < of_int (a mod b) / of_int b) = (b < 2 * (a mod b))"
  proof -
    have "((1::rat) / 2 < of_int (a mod b) / of_int b) = ((of_int b :: rat) < of_int (2 * (a mod b)))"
      using assms by (simp add: field_simps)
    then show ?thesis by (simp only: of_int_less_iff)
  qed
  show ?thesis unfolding round_half_even_def Let_def f d c1 c2 ..
qed

lemma rn_eval_frac:
  assumes "0 < b" "- 1022 \<le> e" "e \<le> 52"
    and "2 powi e \<le> (of_int a :: rat) / of_int b" "(of_int a :: rat) / of_int b < 2 powi (e + 1)"
  shows "rn (of_int a / of_int b) =
     of_int (round_half_even (of_int (a * 2 ^ nat (52 - e)) / of_int b)) / 2 ^ nat (52 - e)"
proof -
  define k where "k = nat (52 - e)"
  have ke: "e - 52 = - int k" using assms(3) by (simp add: k_def)
  have u: "(2::rat) powi (e - 52) = 1 / 2 ^ k"
    unfolding ke by (simp add: power_int_minus_divide)
  have "rn (of_int a / of_int b) =
      of_int (round_half_even (of_int a / of_int b / 2 powi (e - 52))) * 2 powi (e - 52)"
    by (rule rn_eval_pos[OF assms(4,5,2)])
  also have "\<dots> = of_int (round_half_even (of_int (a * 2 ^ k) / of_int b)) / 2 ^ k"
    by (simp add: u)
  finally show ?thesis by (simp only: k_def)
qed

lemma rhe_frac_numeral:
  "round_half_even (numeral a / numeral b) =
     (if 2 * (numeral a mod numeral b) < (numeral b :: int) then numeral a div numeral b
      else if (numeral b :: int) < 2 * (numeral a mod numeral b) then numeral a div numeral b + 1
      else if even (numeral a div numeral b :: int) then numeral a div numeral b
      else numeral a div numeral b + 1)"
  using rhe_frac[of "numeral b" "numeral a"] by simp

lemma floor_frac_numeral:
  "\<lfloor>numeral a / numeral b :: rat\<rfloor> = numeral a div numeral b"
  using floor_divide_of_int_eq[of "numeral a" "numeral b", where ?'a = rat] by simp

lemma rn_numeral_exact:
  "(numeral n :: int) < 2 ^ 53 \<Longrightarrow> rn (numeral n) = numeral n"
  using rn_int_exact[of "numeral n"] by simp

lemma rn_1: "rn 1 = 1"
  using rn_int_exact[of 1] by simp

lemma rn_85: "rn 85 = 85"
  by (simp add: rn_numeral_exact)

lemma rn_bound:
  assumes "\<bar>x\<bar> \<le> of_int m" "0 \<le> m" "m < 2 ^ 53"
  shows "\<bar>rn x\<bar> \<le> of_int m"
proof -
  have m: "rn (of_int m) = of_int m" using assms(2,3) by (intro rn_int_exact) simp
  have "x \<le> of_int m" using assms(1) by simp
  then have a: "rn x \<le> of_int m" using rn_mono[of x "of_int m"] by (simp add: m)
  have "- of_int m \<le> x" using assms(1) by simp
  then have "rn (- of_int m) \<le> rn x" by (rule rn_mono)
  then have b: "- of_int m \<le> rn x" by (simp add: rn_minus m)
  from a b show ?thesis by simp
qed

lemma rn_2_60: "rn (2 ^ 60) = 2 ^ 60"
proof -
  have "rn (2 ^ 60) = of_int (round_half_even (2 ^ 60 / 2 powi (60 - 52))) * 2 powi (60 - 52)"
    by (rule rn_eval_pos) simp_all
  also have "\<dots> = of_int (round_half_even (of_int (2 ^ 52))) * 2 ^ 8" by simp
  also have "\<dots> = 2 ^ 60" by (simp only: rhe_of_int) simp
  finally show ?thesis .
qed

lemma newper_of_small:
  assumes "t \<noteq> 0" "\<bar>t\<bar> < 2 ^ 53" "\<bar>k\<bar> < 2 ^ 53"
  shows "newper_of k t = Inr (10 + trunc (rn (rn (of_int k / of_int t) * 85)))"
proof -
  have rt: "rn (of_int t) = of_int t" using assms(2) by (rule rn_int_exact)
  have rk: "rn (of_int k) = of_int k" using assms(3) by (rule rn_int_exact)
  have big: "(2::rat) ^ 53 < 2 ^ 1024" by simp
  have "\<bar>of_int t :: rat\<bar> < 2 ^ 53" using assms(2)
    by (metis of_int_abs of_int_less_iff of_int_numeral of_int_power)
  then have o1: "\<not> float_overflows (rn (of_int t))" using big by (simp add: rt float_overflows_def)
  have kk: "\<bar>of_int k :: rat\<bar> < 2 ^ 53" using assms(3)
    by (metis of_int_abs of_int_less_iff of_int_numeral of_int_power)
  then have o2: "\<not> float_overflows (rn (of_int k))" using big by (simp add: rk float_overflows_def)
  define m where "m = \<bar>k\<bar>"
  have m: "0 \<le> m" "m < 2 ^ 53" using assms(3) by (simp_all add: m_def)
  have "(1::rat) \<le> \<bar>of_int t\<bar>" using assms(1) by (simp flip: of_int_abs)
  then have t1: "(0::rat) < \<bar>of_int t\<bar>" by linarith
  have "\<bar>of_int k :: rat\<bar> * 1 \<le> \<bar>of_int k\<bar> * \<bar>of_int t\<bar>"
    using \<open>(1::rat) \<le> \<bar>of_int t\<bar>\<close> by (rule mult_left_mono) simp
  then have "\<bar>of_int k :: rat\<bar> / \<bar>of_int t\<bar> \<le> \<bar>of_int k\<bar>"
    using t1 by (simp add: pos_divide_le_eq)
  then have "\<bar>of_int k / of_int t :: rat\<bar> \<le> \<bar>of_int k\<bar>"
    by (simp only: abs_divide)
  then have "\<bar>of_int k / of_int t :: rat\<bar> \<le> of_int m" by (simp add: m_def)
  from rn_bound[OF this m] have q: "\<bar>rn (of_int k / of_int t)\<bar> \<le> of_int m" .
  have "(of_int m :: rat) < 2 ^ 53" using m(2)
    by (metis of_int_less_iff of_int_numeral of_int_power)
  then have y: "\<bar>rn (of_int k / of_int t) * 85\<bar> \<le> 2 ^ 60"
    using q by (simp add: abs_mult)
  define B :: rat where "B = 2 ^ 60"
  have rB: "rn B = B" unfolding B_def by (rule rn_2_60)
  have "rn (of_int k / of_int t) * 85 \<le> B" "- B \<le> rn (of_int k / of_int t) * 85"
    using y unfolding B_def by linarith+
  then have "rn (rn (of_int k / of_int t) * 85) \<le> rn B"
    and "rn (- B) \<le> rn (rn (of_int k / of_int t) * 85)"
    by (auto intro!: rn_mono)
  then have "\<bar>rn (rn (of_int k / of_int t) * 85)\<bar> \<le> B"
    unfolding rn_minus rB by linarith
  moreover have "B < 2 ^ 1024" unfolding B_def by simp
  ultimately have o3: "\<not> float_overflows (rn (rn (of_int k / of_int t) * 85))"
    unfolding float_overflows_def by linarith
  show ?thesis using o1 o2 o3 assms(1) by (simp add: newper_of_def Let_def rt rk)
qed

lemma rn_49_85: "rn (49 / 85) = 2596192726366521 / 4503599627370496"
proof -
  have "rn (of_int 49 / of_int 85) =
      of_int (round_half_even (of_int (49 * 2 ^ nat (52 - (- 1))) / of_int 85))
        / 2 ^ nat (52 - (- 1))"
    by (rule rn_eval_frac) (simp_all add: power_int_minus_divide)
  then show ?thesis by (simp add: rhe_frac_numeral)
qed

lemma rn_49_85_85:
  "rn (220676381741154285 / 4503599627370496) = 6896136929411071 / 140737488355328"
proof -
  have "rn (of_int (2596192726366521 * 85) / of_int 4503599627370496) =
      of_int (round_half_even (of_int (2596192726366521 * 85 * 2 ^ nat (52 - 5))
        / of_int 4503599627370496)) / 2 ^ nat (52 - 5)"
    by (rule rn_eval_frac) simp_all
  then show ?thesis by (simp add: rhe_frac_numeral)
qed

lemma newper_49_85: "newper_of 49 85 = Inr 58"
  using newper_of_small[of 85 49]
  by (simp add: rn_49_85 rn_49_85_85 trunc_def floor_frac_numeral)

lemma newper_1_1: "newper_of 1 1 = Inr 95"
  using newper_of_small[of 1 1]
  by (simp add: rn_1 rn_numeral_exact trunc_def)

lemma newper_2_1: "newper_of 2 1 = Inr 180"
  using newper_of_small[of 1 2]
  by (simp add: rn_numeral_exact trunc_def)

lemma rhe_numeral: "round_half_even (numeral n) = numeral n"
  using rhe_of_int[of "numeral n"] by simp

lemma rn_half: "rn (1 / 2) = 1 / 2"
proof -
  have "rn (of_int 1 / of_int 2) =
      of_int (round_half_even (of_int (1 * 2 ^ nat (52 - (- 1))) / of_int 2)) / 2 ^ nat (52 - (- 1))"
    by (rule rn_eval_frac) (simp_all add: power_int_minus_divide)
  then show ?thesis by (simp add: rhe_frac_numeral rhe_numeral)
qed

lemma rn_85_2: "rn (85 / 2) = 85 / 2"
proof -
  have "rn (of_int 85 / of_int 2) =
      of_int (round_half_even (of_int (85 * 2 ^ nat (52 - 5)) / of_int 2)) / 2 ^ nat (52 - 5)"
    by (rule rn_eval_frac) simp_all
  then show ?thesis by (simp add: rhe_frac_numeral rhe_numeral)
qed

lemma rn_3_2: "rn (3 / 2) = 3 / 2"
proof -
  have "rn (of_int 3 / of_int 2) =
      of_int (round_half_even (of_int (3 * 2 ^ nat (52 - 0)) / of_int 2)) / 2 ^ nat (52 - 0)"
    by (rule rn_eval_frac) simp_all
  then show ?thesis by (simp add: rhe_frac_numeral rhe_numeral)
qed

lemma rn_255_2: "rn (255 / 2) = 255 / 2"
proof -
  have "rn (of_int 255 / of_int 2) =
      of_int (round_half_even (of_int (255 * 2 ^ nat (52 - 6)) / of_int 2)) / 2 ^ nat (52 - 6)"
    by (rule rn_eval_frac) simp_all
  then show ?thesis by (simp add: rhe_frac_numeral rhe_numeral)
qed

lemma newper_1_2: "newper_of 1 2 = Inr 52"
  using newper_of_small[of 2 1]
  by (simp add: rn_half rn_85_2 trunc_def floor_frac_numeral)

lemma newper_2_2: "newper_of 2 2 = Inr 95"
  using newper_of_small[of 2 2]
  by (simp add: rn_1 rn_numeral_exact trunc_def)

lemma newper_3_2: "newper_of 3 2 = Inr 137"
  using newper_of_small[of 2 3]
  by (simp add: rn_3_2 rn_255_2 trunc_def floor_frac_numeral)


section \<open>The run operation: properties\<close>

subsection \<open>Splitting and parsing\<close>

lemma split_on_nonempty: "split_on c s \<noteq> []"
  by (induction s) auto

lemma split_on_no_sep: "p \<in> set (split_on c s) \<Longrightarrow> c \<notin> set p"
proof (induction s arbitrary: p)
  case Nil
  then show ?case by simp
next
  case (Cons x xs)
  show ?case
  proof (cases "x = c")
    case True
    then show ?thesis using Cons by auto
  next
    case False
    obtain h t where ht: "split_on c xs = h # t"
      using split_on_nonempty[of c xs] by (cases "split_on c xs") auto
    then show ?thesis using Cons False by auto
  qed
qed

lemma length_split_on: "length (split_on c s) = Suc (count_list s c)"
proof (induction s)
  case Nil
  then show ?case by simp
next
  case (Cons x xs)
  obtain h t where ht: "split_on c xs = h # t"
    using split_on_nonempty[of c xs] by (cases "split_on c xs") auto
  then show ?case using Cons by auto
qed

lemma split_on_single:
  "c \<notin> set x \<Longrightarrow> c \<notin> set y \<Longrightarrow> split_on c (x @ c # y) = [x, y]"
proof (induction x)
  case Nil
  have "split_on c y = [y]" using Nil(2) by (induction y) auto
  then show ?case by simp
next
  case (Cons a x)
  then show ?case by auto
qed

lemma digit_val_nonneg: "is_digit c \<Longrightarrow> 0 \<le> digit_val c"
  by (simp add: is_digit_def digit_val_def)

lemma foldl_digits_nonneg:
  "0 \<le> a \<Longrightarrow> \<forall>c\<in>set s. is_digit c \<Longrightarrow> 0 \<le> foldl (\<lambda>a c. 10 * a + digit_val c) a s"
  by (induction s arbitrary: a) (auto simp: digit_val_nonneg)

lemma digits_value_nonneg: "0 \<le> digits_value s"
  unfolding digits_value_def by (rule foldl_digits_nonneg) auto

lemma set_strip: "set (strip s) \<subseteq> set s"
proof -
  have "set (strip s) \<subseteq> set (rev (dropWhile py_isspace s))"
    unfolding strip_def using set_dropWhileD by fastforce
  also have "\<dots> \<subseteq> set s" using set_dropWhileD by fastforce
  finally show ?thesis .
qed

lemma py_int_nonneg:
  assumes "CHR ''-'' \<notin> set s" "py_int s = Some n"
  shows "0 \<le> n"
proof -
  have no: "CHR ''-'' \<notin> set (strip s)" using assms(1) set_strip by blast
  show ?thesis
  proof (cases "strip s")
    case Nil
    then show ?thesis using assms(2) by (simp add: py_int_def)
  next
    case (Cons c r)
    then have "c \<noteq> CHR ''-''" using no by auto
    then show ?thesis using assms(2) Cons digits_value_nonneg
      by (auto simp: py_int_def split: if_splits)
  qed
qed

lemma msg_no_dash_neq: "msg_no_dash s \<noteq> msg_negative s'"
proof
  assume "msg_no_dash s = msg_negative s'"
  then have "take 2 (rev (msg_no_dash s)) = take 2 (rev (msg_negative s'))" by simp
  then show False by (simp add: msg_no_dash_def msg_negative_def)
qed

lemma msg_not_numbers_neq: "msg_not_numbers s \<noteq> msg_negative s'"
proof
  assume "msg_not_numbers s = msg_negative s'"
  then have "take 2 (rev (msg_not_numbers s)) = take 2 (rev (msg_negative s'))" by simp
  then show False by (simp add: msg_not_numbers_def msg_negative_def)
qed

lemma msg_not_less_neq: "msg_not_less s \<noteq> msg_negative s'"
proof
  assume "msg_not_less s = msg_negative s'"
  then have "take 2 (rev (msg_not_less s)) = take 2 (rev (msg_negative s'))" by simp
  then show False by (simp add: msg_not_less_def msg_negative_def)
qed

lemma translate_two_parts:
  assumes "split_on CHR ''-'' s = [x, y]"
  shows "translate_elevation s =
     (case (py_int x, py_int y) of
        (Some mini, Some maxi) \<Rightarrow>
          if maxi \<le> mini then Inl (InvalidParameterValue (msg_not_less s))
          else Inr (mini, maxi)
      | _ \<Rightarrow> Inl (InvalidParameterValue (msg_not_numbers s)))"
proof -
  have "length (split_on CHR ''-'' s) = 2" using assms by simp
  then have "count_list s CHR ''-'' = 1" by (simp add: length_split_on)
  then have dash: "CHR ''-'' \<in> set s"
    by (metis count_list_0_iff zero_neq_one)
  have x: "CHR ''-'' \<notin> set x" and y: "CHR ''-'' \<notin> set y"
    using split_on_no_sep[of _ "CHR ''-''" s] assms by auto
  show ?thesis
    using dash assms py_int_nonneg[OF x] py_int_nonneg[OF y]
    by (auto simp: translate_elevation_def split: option.splits)
qed

lemma three_parts: "3 \<le> length xs \<Longrightarrow> \<exists>a b c r. xs = a # b # c # r"
  by (auto simp: numeral_3_eq_3 Suc_le_length_iff)

lemma translate_many_parts:
  assumes "1 < count_list s CHR ''-''"
  shows "translate_elevation s = Inl (ValueError ''too many values to unpack (expected 2)'')"
proof -
  have dash: "CHR ''-'' \<in> set s" using assms
    by (metis count_list_0_iff not_less_zero)
  have "3 \<le> length (split_on CHR ''-'' s)" using assms by (simp add: length_split_on)
  then obtain a b c r where "split_on CHR ''-'' s = a # b # c # r"
    using three_parts by blast
  then show ?thesis using dash by (simp add: translate_elevation_def)
qed


lemma char_of_digit: "(d::nat) < 10 \<Longrightarrow> (of_char (char_of (48 + d)) :: nat) = 48 + d"
  by simp

lemma is_digit_char: "(d::nat) < 10 \<Longrightarrow> is_digit (char_of (48 + d))"
  by (simp add: is_digit_def)

lemma digit_val_char: "(d::nat) < 10 \<Longrightarrow> digit_val (char_of (48 + d)) = int d"
  by (simp add: digit_val_def)

lemma decimal_digits: "c \<in> set (decimal n) \<Longrightarrow> is_digit c"
proof (induction n arbitrary: c rule: decimal.induct)
  case (1 n)
  show ?case
  proof (cases "n < 10")
    case True
    then show ?thesis using 1(2) by (simp add: decimal.simps[of n] is_digit_char)
  next
    case False
    then show ?thesis using 1 by (auto simp: decimal.simps[of n] is_digit_char)
  qed
qed

lemma decimal_nonempty: "decimal n \<noteq> []"
  by (subst decimal.simps) simp

lemma digits_ok_all: "s \<noteq> [] \<Longrightarrow> \<forall>c\<in>set s. is_digit c \<Longrightarrow> digits_ok s"
proof (induction s rule: digits_ok.induct)
  case (3 c d cs)
  have "d \<noteq> CHR ''_''" using 3(4) by (auto simp: is_digit_def)
  then show ?case using 3 by simp
qed auto

lemma foldl_digits_snoc:
  "foldl (\<lambda>a c. 10 * a + digit_val c) a (s @ [c]) =
     10 * foldl (\<lambda>a c. 10 * a + digit_val c) a s + digit_val c"
  by simp

lemma digits_value_decimal: "digits_value (decimal n) = int n"
proof (induction n rule: decimal.induct)
  case (1 n)
  show ?case
  proof (cases "n < 10")
    case True
    then show ?thesis
      by (simp add: decimal.simps[of n] digits_value_def is_digit_char digit_val_char)
  next
    case False
    have all: "filter is_digit (decimal (n div 10)) = decimal (n div 10)"
      using decimal_digits by (simp add: filter_id_conv)
    have "digits_value (decimal (n div 10)) = int (n div 10)" using 1 False by simp
    then have "foldl (\<lambda>a c. 10 * a + digit_val c) 0 (decimal (n div 10)) = int (n div 10)"
      by (simp add: digits_value_def all)
    moreover have "10 * int (n div 10) + int (n mod 10) = int n"
      by (simp add: zdiv_int zmod_int)
    ultimately show ?thesis using False
      by (simp add: decimal.simps[of n] digits_value_def all is_digit_char digit_val_char)
  qed
qed

lemma not_space_digit: "is_digit c \<Longrightarrow> \<not> py_isspace c"
  by (auto simp: is_digit_def py_isspace_def)

lemma strip_digits:
  assumes "s \<noteq> []" "\<forall>c\<in>set s. is_digit c"
  shows "strip s = s"
proof -
  have a: "dropWhile py_isspace s = s" using assms by (cases s) (auto simp: not_space_digit)
  have "rev s \<noteq> []" "\<forall>c\<in>set (rev s). is_digit c" using assms by auto
  then have b: "dropWhile py_isspace (rev s) = rev s" by (cases "rev s") (auto simp: not_space_digit)
  show ?thesis by (simp add: strip_def a b)
qed

lemma py_int_decimal: "py_int (decimal n) = Some (int n)"
proof -
  have d: "\<forall>c\<in>set (decimal n). is_digit c" using decimal_digits by blast
  obtain c r where cr: "decimal n = c # r" using decimal_nonempty[of n] by (cases "decimal n") auto
  have "is_digit c" using d cr by simp
  then have "c \<noteq> CHR ''-''" "c \<noteq> CHR ''+''" by (auto simp: is_digit_def)
  moreover have "digits_ok (c # r)" using digits_ok_all[OF decimal_nonempty d] cr by simp
  ultimately show ?thesis
    using strip_digits[OF decimal_nonempty d] digits_value_decimal[of n] cr
    by (simp add: py_int_def)
qed

lemma decimal_no_dash: "CHR ''-'' \<notin> set (decimal n)"
  using decimal_digits[of "CHR ''-''" n] by (auto simp: is_digit_def)

lemma translate_decimal:
  "translate_elevation (decimal a @ ''-'' @ decimal b) =
     (if a < b then Inr (int a, int b)
      else Inl (InvalidParameterValue (msg_not_less (decimal a @ ''-'' @ decimal b))))"
proof -
  have "split_on CHR ''-'' (decimal a @ ''-'' @ decimal b) = [decimal a, decimal b]"
    using split_on_single[OF decimal_no_dash decimal_no_dash] by simp
  from translate_two_parts[OF this] show ?thesis by (auto simp: py_int_decimal)
qed




subsection \<open>The narrowed domain\<close>

lemma rn_179_9: "rn (1799 / 10) = 6329668538780877 / 35184372088832"
proof -
  have "rn (of_int 1799 / of_int 10) =
      of_int (round_half_even (of_int (1799 * 2 ^ nat (52 - 7)) / of_int 10)) / 2 ^ nat (52 - 7)"
    by (rule rn_eval_frac) simp_all
  then show ?thesis by (simp add: rhe_frac_numeral)
qed

lemma run_validate_domain:
  "run_validate request = Inr p \<Longrightarrow> domain p = run_domains request"
  by (auto simp: run_validate_def split: sum.splits)

text \<open>
  Claim C8. In the run operation the domain handed on is
  \<^verbatim>\<open>[min_lat, min_lon, max_lat, max_lon]\<close>; when \<^verbatim>\<open>min_lon\<close> is \<open>-180\<close> and \<^verbatim>\<open>max_lon\<close> is
  \<open>180\<close> the two longitudes are replaced by \<open>-179.875\<close> and by the float \<^verbatim>\<open>179.9\<close>, and for
  every other pair of longitudes the values are used unchanged. The latitudes are never
  changed.
\<close>

theorem full_longitude_narrowed:
  "(\<forall>p. run_validate request = Inr p \<longrightarrow> domain p = run_domains request)
   \<and> run_domains request =
       (if min_lon request = Finite (- 180) \<and> max_lon request = Finite 180
        then [min_lat request, Finite (- (179875 / 1000)), max_lat request,
              Finite (6329668538780877 / 35184372088832)]
        else [min_lat request, min_lon request, max_lat request, max_lon request])"
proof -
  have a: "\<forall>p. run_validate request = Inr p \<longrightarrow> domain p = run_domains request"
    using run_validate_domain by blast
  have b: "run_domains request =
       (if min_lon request = Finite (- 180) \<and> max_lon request = Finite 180
        then [min_lat request, Finite (- (179875 / 1000)), max_lat request,
              Finite (6329668538780877 / 35184372088832)]
        else [min_lat request, min_lon request, max_lat request, max_lon request])"
    by (simp add: run_domains_def narrow_domains_def feq_def rn_179_9)
  show ?thesis using a b by (rule conjI)
qed

lemma default_run_valid:
  "run_validate default_run =
     Inr \<lparr>ranges = [(0, 100)],
          domain = [Finite (- 90), Finite (- (179875 / 1000)), Finite 90,
                    Finite (6329668538780877 / 35184372088832)]\<rparr>"
  by code_simp

theorem full_longitude_narrowed_witness:
  "run_domains default_run =
     [Finite (- 90), Finite (- (179875 / 1000)), Finite 90,
      Finite (6329668538780877 / 35184372088832)]
   \<and> (\<exists>p. run_validate default_run = Inr p \<and> domain p = run_domains default_run)"
proof -
  note t = full_longitude_narrowed [of default_run]
  have a: "run_domains default_run =
     [Finite (- 90), Finite (- (179875 / 1000)), Finite 90,
      Finite (6329668538780877 / 35184372088832)]"
    using conjunct2[OF t] by (simp add: default_run_def)
  have b: "\<exists>p. run_validate default_run = Inr p \<and> domain p = run_domains default_run"
    using conjunct1[OF t] default_run_valid by blast
  show ?thesis using a b by (rule conjI)
qed

subsection \<open>The bounding box\<close>

text \<open>
  Claim C2, as the code has it. In both operations the bounding box is rejected, with
  \<^verbatim>\<open>InvalidParameterValue\<close>, exactly when \<^verbatim>\<open>min_lon < -180\<close> or \<^verbatim>\<open>max_lon > 180\<close> or
  \<^verbatim>\<open>min_lat < -90\<close> or \<^verbatim>\<open>max_lat > 90\<close>. So every box of finite numbers with
  \<open>-180 \<le> min_lon\<close>, \<open>max_lon \<le> 180\<close>, \<open>-90 \<le> min_lat\<close>, \<open>max_lat \<le> 90\<close> passes, in particular
  every box within the limits that has min below max on both axes; the order of min
  and max is not tested.
\<close>

theorem bbox_check_limits:
  "plot_check_bbox request = run_check_bbox request
   \<and> ((run_check_bbox request = Inr ()) =
        (\<not> flt (min_lon request) (Finite (- 180)) \<and> \<not> fgt (max_lon request) (Finite 180)
         \<and> \<not> flt (min_lat request) (Finite (- 90)) \<and> \<not> fgt (max_lat request) (Finite 90)))
   \<and> (run_check_bbox request \<noteq> Inr ()
        \<longrightarrow> (\<exists>m. run_check_bbox request = Inl (InvalidParameterValue m)))
   \<and> (\<forall>a b c d.
         min_lon request = Finite a \<and> max_lon request = Finite b
         \<and> min_lat request = Finite c \<and> max_lat request = Finite d
         \<longrightarrow> (run_check_bbox request = Inr ()) = (- 180 \<le> a \<and> b \<le> 180 \<and> - 90 \<le> c \<and> d \<le> 90))"
  by (auto simp: run_check_bbox_def plot_check_bbox_def fgt_def)

theorem bbox_check_limits_witness:
  "run_check_bbox default_run = Inr () \<and> plot_check_bbox default_run = Inr ()"
proof -
  note t = bbox_check_limits [of default_run]
  have a: "run_check_bbox default_run = Inr ()"
    using conjunct1[OF conjunct2[OF t]] by (simp add: default_run_def fgt_def)
  show ?thesis using a conjunct1[OF t] by simp
qed

text \<open>
  The claim as written fails: a box whose longitudes are in the wrong order, all four
  values within the limits, passes the test of both operations.
\<close>

theorem bbox_ordering_counterexample:
  "run_check_bbox inverted_box = Inr () \<and> plot_check_bbox inverted_box = Inr ()
   \<and> min_lon inverted_box = Finite 10 \<and> max_lon inverted_box = Finite 5
   \<and> \<not> ((10::rat) < 5)"
  by (simp add: inverted_box_def run_check_bbox_def plot_check_bbox_def fgt_def)

subsection \<open>The dates\<close>

lemma run_validate_dates:
  "run_validate request = Inr p
     \<Longrightarrow> check_dates (startdate request) (enddate request) = Inr ()"
  by (auto simp: run_validate_def split: sum.splits)

text \<open>
  Claim C1, as the code has it. The end date is inclusive: the date test succeeds if
  and only if the day after the end, \<open>end + 1 day\<close>, is a date that exists, the start
  is before it, and \<open>(end + 1 day) - start\<close> is less than 93 days. A request whose start
  is at or after \<open>end + 1 day\<close> fails with \<^verbatim>\<open>InvalidParameterValue\<close>, and so does a span
  of 93 days or more. (An end less than a day before the start is accepted.)
\<close>

theorem date_check_inclusive_end:
  "((check_dates start end = Inr ()) =
      (valid_datetime (end + days 1) \<and> start < end + days 1
       \<and> end + days 1 - start < days 93))
   \<and> (valid_datetime (end + days 1) \<and> end + days 1 \<le> start
        \<longrightarrow> check_dates start end =
              Inl (InvalidParameterValue ''The end date is earlier than the start date!''))
   \<and> (valid_datetime (end + days 1) \<and> start < end + days 1
        \<and> days 93 \<le> end + days 1 - start
        \<longrightarrow> check_dates start end =
              Inl (InvalidParameterValue
                ''Can only run across a maximum of three months in one go''))
   \<and> (\<forall>request p. run_validate request = Inr p
         \<and> start = startdate request \<and> end = enddate request
         \<longrightarrow> start < end + days 1 \<and> end + days 1 - start < days 93)"
proof -
  have a: "(check_dates start end = Inr ()) =
      (valid_datetime (end + days 1) \<and> start < end + days 1
       \<and> end + days 1 - start < days 93)"
    by (auto simp: check_dates_def datetime_add_def)
  have b: "\<forall>request p. run_validate request = Inr p
         \<and> start = startdate request \<and> end = enddate request
         \<longrightarrow> start < end + days 1 \<and> end + days 1 - start < days 93"
    using a run_validate_dates by blast
  show ?thesis using a b by (auto simp: check_dates_def datetime_add_def)
qed

text \<open>
  A span of exactly 93 days (start at midnight of 2020-01-01, end at midnight of
  2020-04-02) fails, one of 92 days passes, and a start one day after the end fails.
\<close>

theorem date_check_inclusive_end_witness:
  "check_dates 63713433600000000 63721382400000000 =
     Inl (InvalidParameterValue ''Can only run across a maximum of three months in one go'')
   \<and> check_dates 63713433600000000 63721296000000000 = Inr ()
   \<and> check_dates 63713520000000000 63713433600000000 =
     Inl (InvalidParameterValue ''The end date is earlier than the start date!'')"
  using date_check_inclusive_end [of 63713433600000000 63721382400000000]
    date_check_inclusive_end [of 63713433600000000 63721296000000000]
    date_check_inclusive_end [of 63713520000000000 63713433600000000]
  by (simp add: valid_datetime_def datetime_max_def days_def)

text \<open>
  The claim as written fails: the request that starts at 2020-01-01T12:00:00 and ends
  at 2020-01-01T00:00:00 has its end before its start, and the validation accepts it.
\<close>

theorem date_check_counterexample:
  "run_validate noon_run =
     Inr \<lparr>ranges = [(0, 100)],
          domain = [Finite (- 90), Finite (- (179875 / 1000)), Finite 90,
                    Finite (6329668538780877 / 35184372088832)]\<rparr>
   \<and> enddate noon_run < startdate noon_run"
  by code_simp

subsection \<open>Elevation ranges\<close>

text \<open>
  What \<^verbatim>\<open>translate_elevation\<close> does on the strings the checks are written for: a
  string without \<^verbatim>\<open>-\<close> is rejected; a string with one \<^verbatim>\<open>-\<close> is rejected unless both
  parts are numbers and the first is the smaller; the decimal numerals of \<open>a < b\<close>
  joined by \<^verbatim>\<open>-\<close> give \<open>(a, b)\<close>.
\<close>

lemma translate_no_dash:
  "CHR ''-'' \<notin> set s \<Longrightarrow> translate_elevation s = Inl (InvalidParameterValue (msg_no_dash s))"
  by (simp add: translate_elevation_def)

lemma translate_not_numbers:
  assumes "split_on CHR ''-'' s = [x, y]" "py_int x = None \<or> py_int y = None"
  shows "translate_elevation s = Inl (InvalidParameterValue (msg_not_numbers s))"
  using assms(2) by (auto simp: translate_two_parts[OF assms(1)] split: option.splits)

text \<open>
  Claim C10. When the split has two parts and both are numbers, neither is negative,
  so the test \<^verbatim>\<open>mini < 0 or maxi < 0\<close> never holds and its error is never raised; an
  accepted string has exactly one \<^verbatim>\<open>-\<close>; and every string with more than one \<^verbatim>\<open>-\<close>
  (such as \<^verbatim>\<open>-5-10\<close>) ends in the \<^verbatim>\<open>ValueError\<close> of the unpacking, which is not an
  \<^verbatim>\<open>InvalidParameterValue\<close>.
\<close>

theorem negative_branch_unreachable:
  "(split_on CHR ''-'' s = [x, y] \<and> py_int x = Some mini \<and> py_int y = Some maxi
      \<longrightarrow> 0 \<le> mini \<and> 0 \<le> maxi)
   \<and> translate_elevation s \<noteq> Inl (InvalidParameterValue (msg_negative s'))
   \<and> (translate_elevation s = Inr (a, b)
        \<longrightarrow> 0 \<le> a \<and> 0 \<le> b \<and> count_list s CHR ''-'' = 1)
   \<and> (1 < count_list s CHR ''-''
        \<longrightarrow> translate_elevation s =
              Inl (ValueError ''too many values to unpack (expected 2)''))"
proof -
  have p1: "split_on CHR ''-'' s = [x, y] \<and> py_int x = Some mini \<and> py_int y = Some maxi
      \<longrightarrow> 0 \<le> mini \<and> 0 \<le> maxi"
  proof
    assume h: "split_on CHR ''-'' s = [x, y] \<and> py_int x = Some mini \<and> py_int y = Some maxi"
    then have "CHR ''-'' \<notin> set x" "CHR ''-'' \<notin> set y"
      using split_on_no_sep[of _ "CHR ''-''" s] by auto
    then show "0 \<le> mini \<and> 0 \<le> maxi" using h py_int_nonneg by blast
  qed
  have p4: "1 < count_list s CHR ''-''
        \<longrightarrow> translate_elevation s =
              Inl (ValueError ''too many values to unpack (expected 2)'')"
    using translate_many_parts by blast
  consider (none) "count_list s CHR ''-'' = 0" | (one) "count_list s CHR ''-'' = 1"
    | (more) "1 < count_list s CHR ''-''" by linarith
  then have p23: "translate_elevation s \<noteq> Inl (InvalidParameterValue (msg_negative s'))
     \<and> (translate_elevation s = Inr (a, b)
        \<longrightarrow> 0 \<le> a \<and> 0 \<le> b \<and> count_list s CHR ''-'' = 1)"
  proof cases
    case none
    then have "CHR ''-'' \<notin> set s" by (simp add: count_list_0_iff)
    then show ?thesis by (simp add: translate_no_dash msg_no_dash_neq)
  next
    case one
    then have "length (split_on CHR ''-'' s) = 2" by (simp add: length_split_on)
    then obtain u v where uv: "split_on CHR ''-'' s = [u, v]"
      by (auto simp: numeral_2_eq_2 length_Suc_conv)
    have "CHR ''-'' \<notin> set u" "CHR ''-'' \<notin> set v"
      using split_on_no_sep[of _ "CHR ''-''" s] uv by auto
    then show ?thesis using one py_int_nonneg
      by (auto simp: translate_two_parts[OF uv] msg_not_less_neq msg_not_numbers_neq
          split: option.splits if_splits)
  next
    case more
    then show ?thesis by (simp add: translate_many_parts)
  qed
  from p1 p23 p4 show ?thesis by blast
qed

lemma translate_default: "translate_elevation ''0-100'' = Inr (0, 100)"
  by code_simp

theorem negative_branch_unreachable_witness:
  "translate_elevation ''0-100'' = Inr (0, 100) \<and> count_list ''0-100'' CHR ''-'' = 1
   \<and> 1 < count_list ''-5-10'' CHR ''-''
   \<and> translate_elevation ''-5-10'' =
       Inl (ValueError ''too many values to unpack (expected 2)'')"
proof -
  note t1 = negative_branch_unreachable [of "''0-100''" "''0''" "''100''" 0 100 "''0-100''" 0 100]
  note t2 = negative_branch_unreachable [of "''-5-10''" "[]" "[]" 0 0 "''-5-10''" 0 0]
  have a: "count_list ''0-100'' CHR ''-'' = 1"
    using conjunct1[OF conjunct2[OF conjunct2[OF t1]]] translate_default by blast
  have b: "1 < count_list ''-5-10'' CHR ''-''" by simp
  have c: "translate_elevation ''-5-10'' =
       Inl (ValueError ''too many values to unpack (expected 2)'')"
    using conjunct2[OF conjunct2[OF conjunct2[OF t2]]] b by blast
  show ?thesis using a b c translate_default by blast
qed

text \<open>
  Claim C4. The string \<^verbatim>\<open>-5-10\<close>, whose lower bound is negative, is not rejected with
  \<^verbatim>\<open>InvalidParameterValue\<close>: the split has three parts and the unpacking raises
  \<^verbatim>\<open>ValueError\<close>. The same holds for \<^verbatim>\<open>-10--5\<close> and \<^verbatim>\<open>0--5\<close>. The rest of the claim
  holds: \<open>translate_decimal\<close>, \<open>translate_no_dash\<close>, \<open>translate_not_numbers\<close>.
\<close>

theorem negative_bound_escapes:
  "translate_elevation ''-5-10'' = Inl (ValueError ''too many values to unpack (expected 2)'')
   \<and> translate_elevation ''-10--5'' =
       Inl (ValueError ''too many values to unpack (expected 2)'')
   \<and> translate_elevation ''0--5'' =
       Inl (ValueError ''too many values to unpack (expected 2)'')
   \<and> translate_elevation ''0-100'' = Inr (0, 100)
   \<and> translate_elevation ''100-0'' = Inl (InvalidParameterValue (msg_not_less ''100-0''))
   \<and> translate_elevation ''a-b'' = Inl (InvalidParameterValue (msg_not_numbers ''a-b''))
   \<and> translate_elevation ''100'' = Inl (InvalidParameterValue (msg_no_dash ''100''))"
  by code_simp


section \<open>The plot operation: properties\<close>

subsection \<open>Progress\<close>

lemma trunc_mono:
  assumes "x \<le> y"
  shows "trunc x \<le> trunc y"
proof -
  consider "0 \<le> x" | "x < 0" "0 \<le> y" | "x < 0" "y < 0" by linarith
  then show ?thesis
  proof cases
    case 1
    then have "0 \<le> y" using assms by simp
    then show ?thesis using 1 floor_mono[OF assms] by (simp add: trunc_def)
  next
    case 2
    have "\<lceil>x\<rceil> \<le> 0" using 2(1) by (simp add: ceiling_le_zero)
    moreover have "0 \<le> \<lfloor>y\<rfloor>" using 2(2) by simp
    ultimately have "\<lceil>x\<rceil> \<le> \<lfloor>y\<rfloor>" by (rule order_trans)
    then show ?thesis using 2 by (simp add: trunc_def)
  next
    case 3
    then show ?thesis using ceiling_mono[OF assms] by (simp add: trunc_def)
  qed
qed

lemma rn_pos_ge1:
  assumes "0 < (t::int)"
  shows "1 \<le> rn (of_int t)"
proof -
  have "(1::rat) \<le> of_int t" using assms by simp
  then have "rn 1 \<le> rn (of_int t)" by (rule rn_mono)
  then show ?thesis by (simp add: rn_1)
qed

lemma newper_of_Inr:
  assumes "newper_of k t = Inr v"
  shows "v = 10 + trunc (rn (rn (rn (of_int k) / rn (of_int t)) * 85))"
  using assms by (auto simp: newper_of_def Let_def split: if_splits)

lemma newper_of_mono:
  assumes "0 < t" "k \<le> k'" "newper_of k t = Inr v" "newper_of k' t = Inr v'"
  shows "v \<le> v'"
proof -
  have t1: "0 < rn (of_int t)" using rn_pos_ge1[OF assms(1)] by simp
  have "rn (of_int k) \<le> rn (of_int k')" using assms(2) by (intro rn_mono) simp
  then have "rn (of_int k) / rn (of_int t) \<le> rn (of_int k') / rn (of_int t)"
    using t1 by (simp add: divide_right_mono)
  then have "rn (rn (of_int k) / rn (of_int t)) \<le> rn (rn (of_int k') / rn (of_int t))"
    by (rule rn_mono)
  then have "rn (rn (of_int k) / rn (of_int t)) * 85 \<le> rn (rn (of_int k') / rn (of_int t)) * 85"
    by simp
  then have "rn (rn (rn (of_int k) / rn (of_int t)) * 85)
      \<le> rn (rn (rn (of_int k') / rn (of_int t)) * 85)"
    by (rule rn_mono)
  then have "trunc (rn (rn (rn (of_int k) / rn (of_int t)) * 85))
      \<le> trunc (rn (rn (rn (of_int k') / rn (of_int t)) * 85))"
    by (rule trunc_mono)
  then show ?thesis using newper_of_Inr[OF assms(3)] newper_of_Inr[OF assms(4)] by simp
qed

lemma newper_of_le_95:
  assumes "0 < t" "k \<le> t" "newper_of k t = Inr v"
  shows "v \<le> 95"
proof -
  have t1: "0 < rn (of_int t)" using rn_pos_ge1[OF assms(1)] by simp
  have "rn (of_int k) \<le> rn (of_int t)" using assms(2) by (intro rn_mono) simp
  then have "rn (of_int k) / rn (of_int t) \<le> 1" using t1 by simp
  then have "rn (rn (of_int k) / rn (of_int t)) \<le> rn 1" by (rule rn_mono)
  then have "rn (rn (of_int k) / rn (of_int t)) * 85 \<le> 85" by (simp add: rn_1)
  then have "rn (rn (rn (of_int k) / rn (of_int t)) * 85) \<le> rn 85" by (rule rn_mono)
  then have "trunc (rn (rn (rn (of_int k) / rn (of_int t)) * 85)) \<le> trunc 85"
    unfolding rn_85 by (rule trunc_mono)
  then show ?thesis using newper_of_Inr[OF assms(3)] by (simp add: trunc_def)
qed

lemma newper_of_ge_10:
  assumes "0 < t" "0 \<le> k" "newper_of k t = Inr v"
  shows "10 \<le> v"
proof -
  have t1: "0 < rn (of_int t)" using rn_pos_ge1[OF assms(1)] by simp
  have "0 \<le> rn (of_int k)" using assms(2) by (intro rn_nonneg) simp
  then have "0 \<le> rn (of_int k) / rn (of_int t)" using t1 by simp
  then have "0 \<le> rn (rn (of_int k) / rn (of_int t))" by (rule rn_nonneg)
  then have "0 \<le> rn (rn (of_int k) / rn (of_int t)) * 85" by simp
  then have "0 \<le> rn (rn (rn (of_int k) / rn (of_int t)) * 85)" by (rule rn_nonneg)
  then have "0 \<le> trunc (rn (rn (rn (of_int k) / rn (of_int t)) * 85))" by (simp add: trunc_def)
  then show ?thesis using newper_of_Inr[OF assms(3)] by simp
qed

lemma emitted_nonempty: "emitted t n \<noteq> []"
  by (simp add: emitted_def)

lemma emitted_zero: "emitted t 0 = [10]"
  by (simp add: emitted_def)

lemma remdups_adj_snoc:
  "zs \<noteq> [] \<Longrightarrow> remdups_adj (zs @ [v]) = remdups_adj zs @ (if last zs = v then [] else [v])"
proof -
  assume "zs \<noteq> []"
  then obtain ys y where zs: "zs = ys @ [y]" by (cases zs rule: rev_cases) auto
  show ?thesis using remdups_adj_append_two[of ys y v] by (simp add: zs)
qed

lemma emitted_step:
  assumes "0 \<le> n"
  shows "emitted t (n + 1) =
     emitted t n @ (if last (emitted t n) = percent_at t (n + 1) then [] else [percent_at t (n + 1)])"
proof -
  have "[1..n + 1] = [1..n] @ [n + 1]" using assms by (simp add: upto_rec2)
  then have "10 # map (percent_at t) [1..n + 1] = (10 # map (percent_at t) [1..n]) @ [percent_at t (n + 1)]"
    by simp
  then show ?thesis
    unfolding emitted_def by (simp only: remdups_adj_snoc last_remdups_adj list.simps(3) simp_thms)
qed

lemma after_render_cases:
  assumes "after_render t st = Inr st'"
  shows "\<exists>v. newper_of (plots_made st + 1) t = Inr v
     \<and> st' = (if oldper st \<noteq> v
              then (update_status ''Plotting'' v (st\<lparr>plots_made := plots_made st + 1\<rparr>))
                     \<lparr>oldper := v\<rparr>
              else st\<lparr>plots_made := plots_made st + 1\<rparr>)"
  using assms by (auto simp: after_render_def Let_def split: sum.splits if_splits)

lemma draw_fields:
  "plots_made (draw env j st) = plots_made st"
  "oldper (draw env j st) = oldper st"
  "statuses (draw env j st) = statuses st"
  "tmp_dirs (draw env j st) = tmp_dirs st"
  "next_tmp (draw env j st) = next_tmp st"
  by (auto simp: draw_def split: outcome.splits option.splits)

lemma last_emitted:
  "0 \<le> n \<Longrightarrow> last (emitted t (n + 1)) = percent_at t (n + 1)"
  by (simp add: emitted_def upto_rec2)

lemma render_step:
  assumes inv: "trace_inv t st" and r: "render env t j st = Inr st'"
  shows "trace_inv t st' \<and> plots_made st' = plots_made st + 1
     \<and> tmp_dirs st' = tmp_dirs st \<and> next_tmp st' = next_tmp st"
proof -
  define n where "n = plots_made st"
  define s1 where "s1 = draw env j st"
  have f: "plots_made s1 = n" "oldper s1 = oldper st" "statuses s1 = statuses st"
    "tmp_dirs s1 = tmp_dirs st" "next_tmp s1 = next_tmp st"
    by (simp_all add: s1_def n_def draw_fields)
  have "after_render t s1 = Inr st'" using r by (simp add: render_def s1_def)
  from after_render_cases[OF this] obtain v where
    v: "newper_of (n + 1) t = Inr v" and
    st': "st' = (if oldper st \<noteq> v
              then (update_status ''Plotting'' v (s1\<lparr>plots_made := n + 1\<rparr>))\<lparr>oldper := v\<rparr>
              else s1\<lparr>plots_made := n + 1\<rparr>)"
    by (auto simp: f)
  have n0: "0 \<le> n" and
    all: "\<forall>k. 1 \<le> k \<and> k \<le> n \<longrightarrow> newper_of k t = Inr (percent_at t k)" and
    sts: "statuses st = (''Processed plot parameters'', 5) # map (Pair ''Plotting'') (emitted t n)" and
    old: "oldper st = last (emitted t n)"
    using inv by (auto simp: trace_inv_def n_def)
  have pv: "percent_at t (n + 1) = v" using v by (simp add: percent_at_def)
  have step: "emitted t (n + 1) = emitted t n @ (if oldper st = v then [] else [v])"
    using emitted_step[OF n0, of t] by (simp add: pv old)
  have pm: "plots_made st' = n + 1" by (simp add: st' update_status_def)
  have a: "\<forall>k. 1 \<le> k \<and> k \<le> n + 1 \<longrightarrow> newper_of k t = Inr (percent_at t k)"
  proof (intro allI impI)
    fix k assume k: "1 \<le> k \<and> k \<le> n + 1"
    show "newper_of k t = Inr (percent_at t k)"
    proof (cases "k = n + 1")
      case True
      then show ?thesis using v pv by simp
    next
      case False
      then show ?thesis using k all by simp
    qed
  qed
  have b: "statuses st' =
      (''Processed plot parameters'', 5) # map (Pair ''Plotting'') (emitted t (n + 1))"
    by (simp add: st' update_status_def f sts step)
  have c: "oldper st' = last (emitted t (n + 1))"
    by (simp add: st' update_status_def f last_emitted[OF n0] pv)
  have "trace_inv t st'" unfolding trace_inv_def using n0 a b c by (simp add: pm)
  moreover have "tmp_dirs st' = tmp_dirs st" "next_tmp st' = next_tmp st"
    by (simp_all add: st' update_status_def f)
  ultimately show ?thesis using pm by (simp add: n_def)
qed

lemma render_all_steps:
  assumes "trace_inv t st" "render_all env t js st = Inr st'"
  shows "trace_inv t st' \<and> plots_made st' = plots_made st + int (length js)
     \<and> tmp_dirs st' = tmp_dirs st \<and> next_tmp st' = next_tmp st"
  using assms
proof (induction js arbitrary: st)
  case Nil
  then show ?case by simp
next
  case (Cons j js)
  from Cons.prems(2) obtain s1 where s1: "render env t j st = Inr s1"
    and rest: "render_all env t js s1 = Inr st'"
    by (auto split: sum.splits)
  from render_step[OF Cons.prems(1) s1] Cons.IH[OF _ rest] show ?case by simp
qed

lemma render_all_append:
  "render_all env t (xs @ ys) st =
     (case render_all env t xs st of Inl e \<Rightarrow> Inl e | Inr s1 \<Rightarrow> render_all env t ys s1)"
  by (induction xs arbitrary: st) (auto split: sum.splits)

lemma plot_files_jobs:
  "plot_files env t summ ts d listing st = render_all env t (file_jobs env summ ts d listing) st"
proof (induction listing arbitrary: st summ ts)
  case Nil
  then show ?case by simp
next
  case (Cons f rest)
  show ?case
    by (simp add: Cons.IH render_all_append split: option.splits sum.splits)
qed

lemma plot_mode_jobs:
  "tmp_dirs st d = Some listing
     \<Longrightarrow> plot_mode env t summ ts d st = render_all env t (group_jobs env summ ts d listing) st"
  by (auto simp: plot_mode_def group_jobs_def plot_files_jobs split: sum.splits)

lemma plot_group_steps:
  assumes "trace_inv t st" "plot_group env t summ ts d st = Inr st'"
  shows "trace_inv t st' \<and> plots_made st \<le> plots_made st'
     \<and> tmp_dirs st' = (tmp_dirs st)(d := None) \<and> next_tmp st' = next_tmp st"
proof -
  from assms(2) obtain s1 where m: "plot_mode env t summ ts d st = Inr s1"
    and rm: "rmtree d s1 = Inr st'"
    by (auto simp: plot_group_def split: sum.splits)
  have "\<exists>js. plot_mode env t summ ts d st = render_all env t js st"
  proof (cases "tmp_dirs st d")
    case None
    then have "plot_mode env t summ ts d st = render_all env t (group_jobs env summ ts d []) st"
      using m by (auto simp: plot_mode_def group_jobs_def split: if_splits)
    then show ?thesis by blast
  next
    case (Some listing)
    then show ?thesis using plot_mode_jobs by blast
  qed
  then obtain js where "render_all env t js st = Inr s1" using m by auto
  from render_all_steps[OF assms(1) this]
  have s1: "trace_inv t s1" "plots_made s1 = plots_made st + int (length js)"
    "tmp_dirs s1 = tmp_dirs st" "next_tmp s1 = next_tmp st" by auto
  have st': "st' = s1\<lparr>tmp_dirs := (tmp_dirs s1)(d := None)\<rparr>"
    using rm by (auto simp: rmtree_def split: option.splits)
  show ?thesis using s1 by (auto simp: st' trace_inv_def)
qed

lemma plot_groups_steps:
  assumes "trace_inv t st" "plot_groups env t summ ts gs st = Inr st'"
  shows "trace_inv t st' \<and> plots_made st \<le> plots_made st'
     \<and> (\<forall>d. tmp_dirs st' d = (if d \<in> snd ` set gs then None else tmp_dirs st d))
     \<and> next_tmp st' = next_tmp st"
  using assms
proof (induction gs arbitrary: st)
  case Nil
  then show ?case by simp
next
  case (Cons g gs)
  obtain groupnum tmpdir where g: "g = (groupnum, tmpdir)" by (cases g)
  from Cons.prems(2) obtain s1 where s1: "plot_group env t summ ts tmpdir st = Inr s1"
    and rest: "plot_groups env t summ ts gs s1 = Inr st'"
    by (auto simp: g split: sum.splits)
  from plot_group_steps[OF Cons.prems(1) s1] Cons.IH[OF _ rest] show ?case
    by (auto simp: g)
qed

subsection \<open>Grouping\<close>

lemma py_int_single: "py_int [c] = (if is_digit c then Some (digit_val c) else None)"
proof (cases "py_isspace c")
  case True
  then have "\<not> is_digit c" using not_space_digit by blast
  then show ?thesis using True by (simp add: py_int_def strip_def)
next
  case False
  then have s: "strip [c] = [c]" by (simp add: strip_def)
  show ?thesis
    by (auto simp: py_int_def s digits_value_def is_digit_def)
qed

lemma txt_files_append: "txt_files (xs @ ys) = txt_files xs @ txt_files ys"
  by (simp add: txt_files_def)

lemma txt_files_single: "txt_files [f] = (if endswith f ''txt'' then [f] else [])"
  by (simp add: txt_files_def)

lemma groups_inv_skip:
  "\<not> endswith f ''txt'' \<Longrightarrow> groups_inv groups st seen \<Longrightarrow> groups_inv groups st (seen @ [f])"
  by (simp add: groups_inv_def txt_files_append txt_files_single)

lemma groups_inv_known:
  assumes inv: "groups_inv groups st seen" and ftxt: "endswith f ''txt''"
    and new: "f \<notin> set seen" and m: "map_of groups (group_of f) = Some d"
  shows "groups_inv groups (copy f d st) (seen @ [f])"
proof -
  have mem: "(group_of f, d) \<in> set groups" using m by (rule map_of_SomeD)
  have dist: "distinct (map fst groups)" and snds: "map snd groups = [0..<next_tmp st]"
    and keys: "fst ` set groups = group_of ` set (txt_files seen)"
    and dirs: "\<forall>g d. (g, d) \<in> set groups
            \<longrightarrow> tmp_dirs st d = Some (filter (\<lambda>f. group_of f = g) (txt_files seen))"
    and free: "\<forall>d. next_tmp st \<le> d \<longrightarrow> tmp_dirs st d = None"
    using inv by (auto simp: groups_inv_def)
  have dsnd: "distinct (map snd groups)" by (simp add: snds)
  have here: "tmp_dirs st d = Some (filter (\<lambda>h. group_of h = group_of f) (txt_files seen))"
    using dirs mem by blast
  have notin: "f \<notin> set (filter (\<lambda>h. group_of h = group_of f) (txt_files seen))"
    using new by (auto simp: txt_files_def)
  have c: "copy f d st =
      st\<lparr>tmp_dirs := (tmp_dirs st)(d \<mapsto> filter (\<lambda>h. group_of h = group_of f) (txt_files seen) @ [f])\<rparr>"
    using notin by (simp add: copy_def here add_entry_def)
  have same_d: "\<And>g d'. (g, d') \<in> set groups \<Longrightarrow> d' = d \<Longrightarrow> g = group_of f"
  proof -
    fix g d' assume a: "(g, d') \<in> set groups" "d' = d"
    have "inj_on snd (set groups)" using dsnd by (simp add: distinct_map)
    then have "(g, d') = (group_of f, d)"
      using a mem inj_onD[of snd "set groups" "(g, d')" "(group_of f, d)"] by simp
    then show "g = group_of f" by simp
  qed
  have d_lt: "d < next_tmp st"
  proof -
    have "d \<in> set (map snd groups)" using mem by force
    then show ?thesis by (simp add: snds)
  qed
  show ?thesis
    unfolding groups_inv_def
  proof (intro conjI allI impI)
    show "distinct (map fst groups)" by (rule dist)
    show "map snd groups = [0..<next_tmp (copy f d st)]" by (simp add: c snds)
    show "fst ` set groups = group_of ` set (txt_files (seen @ [f]))"
      using keys mem ftxt by (force simp: txt_files_append txt_files_single)
  next
    fix g d' assume a: "(g, d') \<in> set groups"
    show "tmp_dirs (copy f d st) d' = Some (filter (\<lambda>h. group_of h = g) (txt_files (seen @ [f])))"
    proof (cases "d' = d")
      case True
      then have "g = group_of f" using same_d a by blast
      then show ?thesis using True ftxt by (simp add: c txt_files_append txt_files_single)
    next
      case False
      have "g \<noteq> group_of f"
      proof
        assume "g = group_of f"
        then have "map_of groups (group_of f) = Some d'" using a dist by simp
        then show False using m False by simp
      qed
      then show ?thesis using False dirs a ftxt
        by (simp add: c txt_files_append txt_files_single)
    qed
  next
    fix d' assume "next_tmp (copy f d st) \<le> d'"
    then show "tmp_dirs (copy f d st) d' = None" using free d_lt by (simp add: c)
  qed
qed

lemma groups_inv_new:
  assumes inv: "groups_inv groups st seen" and ftxt: "endswith f ''txt''"
    and m: "map_of groups (group_of f) = None"
  shows "groups_inv (groups @ [(group_of f, next_tmp st)])
           (copy f (next_tmp st) (snd (mkdtemp st))) (seen @ [f])"
proof -
  define d where "d = next_tmp st"
  have dist: "distinct (map fst groups)" and snds: "map snd groups = [0..<next_tmp st]"
    and keys: "fst ` set groups = group_of ` set (txt_files seen)"
    and dirs: "\<forall>g d. (g, d) \<in> set groups
            \<longrightarrow> tmp_dirs st d = Some (filter (\<lambda>f. group_of f = g) (txt_files seen))"
    and free: "\<forall>d. next_tmp st \<le> d \<longrightarrow> tmp_dirs st d = None"
    using inv by (auto simp: groups_inv_def)
  have fresh: "group_of f \<notin> fst ` set groups" using m by (simp add: map_of_eq_None_iff)
  have c: "copy f (next_tmp st) (snd (mkdtemp st)) =
      st\<lparr>next_tmp := Suc d, tmp_dirs := (tmp_dirs st)(d \<mapsto> [f])\<rparr>"
    by (simp add: copy_def mkdtemp_def add_entry_def d_def)
  have "\<forall>h\<in>set (txt_files seen). group_of h \<noteq> group_of f"
    using fresh keys by (metis imageI)
  then have none: "filter (\<lambda>h. group_of h = group_of f) (txt_files seen) = []"
    by (simp add: filter_empty_conv)
  have lt: "\<And>g d'. (g, d') \<in> set groups \<Longrightarrow> d' < d"
  proof -
    fix g d' assume "(g, d') \<in> set groups"
    then have "d' \<in> set (map snd groups)" by force
    then show "d' < d" by (simp add: snds d_def)
  qed
  define s' where "s' = st\<lparr>next_tmp := Suc d, tmp_dirs := (tmp_dirs st)(d \<mapsto> [f])\<rparr>"
  have f1: "next_tmp s' = Suc d" "tmp_dirs s' = (tmp_dirs st)(d \<mapsto> [f])"
    by (simp_all add: s'_def)
  have g1: "distinct (map fst (groups @ [(group_of f, d)]))" using dist fresh by simp
  have g2: "map snd (groups @ [(group_of f, d)]) = [0..<next_tmp s']"
    by (simp add: snds d_def f1)
  have g3: "fst ` set (groups @ [(group_of f, d)]) = group_of ` set (txt_files (seen @ [f]))"
    using keys ftxt by (auto simp: txt_files_append txt_files_single)
  have g4: "\<forall>g d'. (g, d') \<in> set (groups @ [(group_of f, d)])
      \<longrightarrow> tmp_dirs s' d' = Some (filter (\<lambda>h. group_of h = g) (txt_files (seen @ [f])))"
  proof (intro allI impI)
    fix g d' assume a: "(g, d') \<in> set (groups @ [(group_of f, d)])"
    show "tmp_dirs s' d' = Some (filter (\<lambda>h. group_of h = g) (txt_files (seen @ [f])))"
    proof (cases "(g, d') \<in> set groups")
      case True
      then have "d' \<noteq> d" using lt by blast
      moreover have "g \<noteq> group_of f" using True fresh by force
      ultimately show ?thesis using dirs True ftxt
        by (simp add: f1 txt_files_append txt_files_single)
    next
      case False
      then have "g = group_of f" "d' = d" using a by auto
      then show ?thesis using none ftxt by (simp add: f1 txt_files_append txt_files_single)
    qed
  qed
  have g5: "\<forall>d'. next_tmp s' \<le> d' \<longrightarrow> tmp_dirs s' d' = None"
    using free by (simp add: f1 d_def)
  have "groups_inv (groups @ [(group_of f, d)]) s' (seen @ [f])"
    unfolding groups_inv_def using g1 g2 g3 g4 g5 by blast
  then show ?thesis by (simp add: c s'_def d_def)
qed

lemma copy_fields:
  "statuses (copy f d st) = statuses st" "plots_made (copy f d st) = plots_made st"
  "oldper (copy f d st) = oldper st" "outdir (copy f d st) = outdir st"
  by (auto simp: copy_def split: option.splits)

lemma mkdtemp_fields:
  "statuses (snd (mkdtemp st)) = statuses st" "plots_made (snd (mkdtemp st)) = plots_made st"
  "oldper (snd (mkdtemp st)) = oldper st" "outdir (snd (mkdtemp st)) = outdir st"
  by (auto simp: mkdtemp_def)

lemma group_files_ok:
  assumes "distinct (seen @ rest)"
    and "\<forall>f\<in>set (txt_files rest). 14 < length f \<and> is_digit (f ! 14)"
    and "groups_inv groups st seen"
  shows "\<exists>groups' st'. group_files rest groups st = Inr (groups', st')
     \<and> groups_inv groups' st' (seen @ rest)
     \<and> statuses st' = statuses st \<and> plots_made st' = plots_made st
     \<and> oldper st' = oldper st \<and> outdir st' = outdir st"
  using assms
proof (induction rest arbitrary: seen groups st)
  case Nil
  then show ?case by simp
next
  case (Cons f rest)
  have d: "distinct ((seen @ [f]) @ rest)" using Cons.prems(1) by simp
  have new: "f \<notin> set seen" using Cons.prems(1) by auto
  show ?case
  proof (cases "endswith f ''txt''")
    case False
    have ok: "\<forall>f\<in>set (txt_files rest). 14 < length f \<and> is_digit (f ! 14)"
      using Cons.prems(2) by (simp add: txt_files_def)
    from Cons.IH[OF d ok groups_inv_skip[OF False Cons.prems(3)]] show ?thesis
      using False by simp
  next
    case True
    have ok: "\<forall>f\<in>set (txt_files rest). 14 < length f \<and> is_digit (f ! 14)"
      and fok: "14 < length f" "is_digit (f ! 14)"
      using Cons.prems(2) True by (auto simp: txt_files_def)
    have p: "py_int [f ! 14] = Some (group_of f)" using fok by (simp add: py_int_single group_of_def)
    show ?thesis
    proof (cases "map_of groups (group_of f)")
      case None
      from Cons.IH[OF d ok groups_inv_new[OF Cons.prems(3) True None]] show ?thesis
        using True fok p None by (simp add: copy_fields mkdtemp_fields mkdtemp_def)
    next
      case (Some dd)
      from Cons.IH[OF d ok groups_inv_known[OF Cons.prems(3) True new Some]] show ?thesis
        using True fok p Some by (simp add: copy_fields)
    qed
  qed
qed

lemma group_files_bad:
  assumes "\<forall>f\<in>set (txt_files pre). 14 < length f \<and> is_digit (f ! 14)"
    and "endswith f ''txt''" and "\<not> (14 < length f \<and> is_digit (f ! 14))"
  shows "group_files (pre @ f # rest) groups st =
     Inl (if length f \<le> 14 then IndexError ''string index out of range''
          else Exception (''Cannot identify groupnumber '' @ [f ! 14]))"
  using assms(1)
proof (induction pre arbitrary: groups st)
  case Nil
  then show ?case using assms(2,3) by (auto simp: py_int_single)
next
  case (Cons a pre)
  show ?case
  proof (cases "endswith a ''txt''")
    case False
    then show ?thesis using Cons by (simp add: txt_files_def)
  next
    case True
    then have ok: "14 < length a" "is_digit (a ! 14)"
      and rest: "\<forall>f\<in>set (txt_files pre). 14 < length f \<and> is_digit (f ! 14)"
      using Cons.prems by (auto simp: txt_files_def)
    show ?thesis using True ok Cons.IH[OF rest]
      by (simp add: py_int_single split: option.splits prod.splits)
  qed
qed

subsection \<open>The handler\<close>

lemma group_files_fields:
  "group_files files groups st = Inr (groups', st')
     \<Longrightarrow> statuses st' = statuses st \<and> plots_made st' = plots_made st
        \<and> oldper st' = oldper st \<and> outdir st' = outdir st"
proof (induction files arbitrary: groups st)
  case Nil
  then show ?case by simp
next
  case (Cons f rest)
  show ?case
  proof (cases "endswith f ''txt''")
    case False
    then show ?thesis using Cons by simp
  next
    case True
    then have ok: "\<not> length f \<le> 14" using Cons.prems by (auto split: if_splits)
    then obtain g where g: "py_int [f ! 14] = Some g"
      using Cons.prems True by (auto split: option.splits)
    show ?thesis
    proof (cases "map_of groups g")
      case None
      then have "group_files rest (groups @ [(g, next_tmp st)])
          (copy f (next_tmp st) (snd (mkdtemp st))) = Inr (groups', st')"
        using Cons.prems True ok g by (simp add: mkdtemp_def)
      from Cons.IH[OF this] show ?thesis by (simp add: copy_fields mkdtemp_fields)
    next
      case (Some d)
      then have "group_files rest groups (copy f d st) = Inr (groups', st')"
        using Cons.prems True ok g by simp
      from Cons.IH[OF this] show ?thesis by (simp add: copy_fields)
    qed
  qed
qed

lemma group_files_dirs:
  assumes "group_files files groups st = Inr (groups', st')"
    and "\<forall>d. tmp_dirs st d \<noteq> None \<longrightarrow> d \<in> snd ` set groups"
  shows "\<forall>d. tmp_dirs st' d \<noteq> None \<longrightarrow> d \<in> snd ` set groups'"
  using assms
proof (induction files arbitrary: groups st)
  case Nil
  then show ?case by simp
next
  case (Cons f rest)
  show ?case
  proof (cases "endswith f ''txt''")
    case False
    then show ?thesis using Cons by simp
  next
    case True
    then have ok: "\<not> length f \<le> 14" using Cons.prems(1) by (auto split: if_splits)
    then obtain g where g: "py_int [f ! 14] = Some g"
      using Cons.prems(1) True by (auto split: option.splits)
    show ?thesis
    proof (cases "map_of groups g")
      case None
      then have r: "group_files rest (groups @ [(g, next_tmp st)])
          (copy f (next_tmp st) (snd (mkdtemp st))) = Inr (groups', st')"
        using Cons.prems(1) True ok g by (simp add: mkdtemp_def)
      have "\<forall>d. tmp_dirs (copy f (next_tmp st) (snd (mkdtemp st))) d \<noteq> None
          \<longrightarrow> d \<in> snd ` set (groups @ [(g, next_tmp st)])"
        using Cons.prems(2) by (auto simp: copy_def mkdtemp_def split: if_splits)
      from Cons.IH[OF r this] show ?thesis .
    next
      case (Some d)
      then have r: "group_files rest groups (copy f d st) = Inr (groups', st')"
        using Cons.prems(1) True ok g by simp
      have "\<forall>d'. tmp_dirs (copy f d st) d' \<noteq> None \<longrightarrow> d' \<in> snd ` set groups"
        using Cons.prems(2) by (auto simp: copy_def split: option.splits if_splits)
      from Cons.IH[OF r this] show ?thesis .
    qed
  qed
qed

lemma plot_handler_run:
  assumes "plot_handler env request = Inr (fin, out)"
  shows "\<exists>groups st1 st3.
     group_files (outputs env) [] start_state = Inr (groups, st1)
     \<and> plot_groups env (num_dates env * int (length groups))
          (if timestamp request \<noteq> None then ''NA'' else summarise request)
          (timestamp request) (sorted_items groups)
          ((update_status ''Plotting'' 10 (st1\<lparr>plots_made := 0\<rparr>))\<lparr>oldper := 10\<rparr>) = Inr st3
     \<and> fin = update_status ''done'' 100 (update_status ''Formatting output'' 95 st3)
     \<and> out = package (filelocation request) (outdir_path env) (outdir st3)"
  using assms
  by (auto simp: plot_handler_def start_state_def Let_def update_status_def
      split: sum.splits if_splits prod.splits)

lemma start_trace:
  assumes "group_files files [] start_state = Inr (groups, st1)"
  shows "trace_inv t ((update_status ''Plotting'' 10 (st1\<lparr>plots_made := 0\<rparr>))\<lparr>oldper := 10\<rparr>)"
proof -
  have "statuses st1 = [(''Processed plot parameters'', 5)]"
    using group_files_fields[OF assms]
    by (simp add: start_state_def update_status_def init_state_def)
  moreover have "\<forall>k::int. 1 \<le> k \<and> k \<le> 0 \<longrightarrow> newper_of k t = Inr (percent_at t k)"
    by auto
  ultimately show ?thesis
    by (simp add: trace_inv_def update_status_def emitted_zero)
qed

lemma handler_trace:
  assumes h: "plot_handler env request = Inr (fin, out)"
    and g: "group_files (outputs env) [] start_state = Inr (groups, st1)"
  shows "0 \<le> plots_made fin
     \<and> (\<forall>k. 1 \<le> k \<and> k \<le> plots_made fin
          \<longrightarrow> newper_of k (num_dates env * int (length groups))
              = Inr (percent_at (num_dates env * int (length groups)) k))
     \<and> statuses fin =
         (''Processed plot parameters'', 5)
           # map (Pair ''Plotting'') (emitted (num_dates env * int (length groups)) (plots_made fin))
           @ [(''Formatting output'', 95), (''done'', 100)]"
proof -
  from plot_handler_run[OF h] g obtain st3 where
    pg: "plot_groups env (num_dates env * int (length groups))
          (if timestamp request \<noteq> None then ''NA'' else summarise request)
          (timestamp request) (sorted_items groups)
          ((update_status ''Plotting'' 10 (st1\<lparr>plots_made := 0\<rparr>))\<lparr>oldper := 10\<rparr>) = Inr st3"
    and fin: "fin = update_status ''done'' 100 (update_status ''Formatting output'' 95 st3)"
    by auto
  from plot_groups_steps[OF start_trace[OF g] pg]
  have "trace_inv (num_dates env * int (length groups)) st3" by simp
  then show ?thesis by (simp add: trace_inv_def fin update_status_def)
qed

lemma sorted_map_mono:
  "sorted xs \<Longrightarrow> (\<forall>x\<in>set xs. \<forall>y\<in>set xs. x \<le> y \<longrightarrow> f x \<le> f y) \<Longrightarrow> sorted (map f xs)"
  by (induction xs) auto

lemma emitted_bounds:
  assumes all: "\<forall>k. 1 \<le> k \<and> k \<le> n \<longrightarrow> newper_of k t = Inr (percent_at t k)"
    and le: "n \<le> t"
  shows "sorted (emitted t n) \<and> (\<forall>p\<in>set (emitted t n). 10 \<le> p \<and> p \<le> 95)"
proof (cases "1 \<le> n")
  case False
  then have "[1..n] = []" by simp
  then show ?thesis by (simp add: emitted_def)
next
  case True
  then have t0: "0 < t" using le by simp
  have val: "\<And>k. k \<in> set [1..n] \<Longrightarrow> newper_of k t = Inr (percent_at t k)"
    using all by simp
  have mono: "\<forall>x\<in>set [1..n]. \<forall>y\<in>set [1..n]. x \<le> y \<longrightarrow> percent_at t x \<le> percent_at t y"
    using newper_of_mono[OF t0] val by blast
  have ge: "\<forall>k\<in>set [1..n]. 10 \<le> percent_at t k"
  proof
    fix k assume k: "k \<in> set [1..n]"
    then have "0 \<le> k" by simp
    from newper_of_ge_10[OF t0 this val[OF k]] show "10 \<le> percent_at t k" .
  qed
  have le95: "\<forall>k\<in>set [1..n]. percent_at t k \<le> 95"
  proof
    fix k assume k: "k \<in> set [1..n]"
    then have "k \<le> t" using le by simp
    from newper_of_le_95[OF t0 this val[OF k]] show "percent_at t k \<le> 95" .
  qed
  have "sorted (map (percent_at t) [1..n])" using sorted_map_mono[OF sorted_upto mono] .
  then have "sorted (10 # map (percent_at t) [1..n])" using ge by simp
  then have s: "sorted (emitted t n)" unfolding emitted_def by (rule sorted_remdups_adj)
  have "set (emitted t n) = insert 10 (percent_at t ` set [1..n])"
    by (simp add: emitted_def)
  then show ?thesis using s ge le95 by auto
qed


lemma after_render_fields:
  "after_render t st = Inr st'
     \<Longrightarrow> tmp_dirs st' = tmp_dirs st \<and> next_tmp st' = next_tmp st \<and> outdir st' = outdir st
        \<and> plots_made st' = plots_made st + 1"
  by (auto simp: after_render_def Let_def update_status_def split: sum.splits if_splits)

lemma render_dirs:
  "render env t j st = Inr st'
     \<Longrightarrow> tmp_dirs st' = tmp_dirs st \<and> plots_made st' = plots_made st + 1"
  using after_render_fields[of t "draw env j st" st'] by (simp add: render_def draw_fields)

lemma render_all_dirs:
  "render_all env t js st = Inr st'
     \<Longrightarrow> tmp_dirs st' = tmp_dirs st \<and> plots_made st' = plots_made st + int (length js)"
proof (induction js arbitrary: st)
  case Nil
  then show ?case by simp
next
  case (Cons j js)
  from Cons.prems obtain s1 where s1: "render env t j st = Inr s1"
    and rest: "render_all env t js s1 = Inr st'"
    by (auto split: sum.splits)
  from render_dirs[OF s1] Cons.IH[OF rest] show ?case by simp
qed

lemma plot_mode_some_jobs:
  assumes "plot_mode env t summ ts d st = Inr s1"
  shows "\<exists>js. render_all env t js st = Inr s1"
proof (cases "tmp_dirs st d")
  case None
  then have "plot_mode env t summ ts d st = render_all env t (group_jobs env summ ts d []) st"
    using assms by (auto simp: plot_mode_def group_jobs_def split: if_splits)
  then show ?thesis using assms by auto
next
  case (Some listing)
  then show ?thesis using plot_mode_jobs[OF Some] assms by auto
qed

lemma plot_group_dirs:
  assumes "plot_group env t summ ts d st = Inr st'"
  shows "tmp_dirs st' = (tmp_dirs st)(d := None) \<and> tmp_dirs st d \<noteq> None"
proof -
  from assms obtain s1 where m: "plot_mode env t summ ts d st = Inr s1"
    and rm: "rmtree d s1 = Inr st'"
    by (auto simp: plot_group_def split: sum.splits)
  from plot_mode_some_jobs[OF m] obtain js where "render_all env t js st = Inr s1" by blast
  from render_all_dirs[OF this] have "tmp_dirs s1 = tmp_dirs st" by simp
  then show ?thesis using rm by (auto simp: rmtree_def split: option.splits)
qed

lemma forget_outdir_eq:
  "(forget_outdir s = forget_outdir s') =
     (next_tmp s = next_tmp s' \<and> tmp_dirs s = tmp_dirs s' \<and> plots_made s = plots_made s'
      \<and> oldper s = oldper s' \<and> statuses s = statuses s')"
  by (cases s; cases s') (simp add: forget_outdir_def)

lemma forget_draw: "forget_outdir (draw env j s) = forget_outdir s"
  by (simp add: forget_outdir_eq draw_fields)

lemma after_render_forget:
  assumes "forget_outdir s = forget_outdir s'"
  shows "map_sum id forget_outdir (after_render t s) = map_sum id forget_outdir (after_render t s')"
  using assms
  by (auto simp: forget_outdir_eq after_render_def Let_def update_status_def split: sum.splits)

lemma render_forget:
  assumes "forget_outdir s = forget_outdir s'"
  shows "map_sum id forget_outdir (render env t j s) = map_sum id forget_outdir (render env' t j' s')"
  unfolding render_def
  by (rule after_render_forget) (simp add: forget_draw assms)

lemma render_all_forget:
  assumes "forget_outdir s = forget_outdir s'" "length js = length js'"
  shows "map_sum id forget_outdir (render_all env t js s)
       = map_sum id forget_outdir (render_all env' t js' s')"
  using assms
proof (induction js arbitrary: js' s s')
  case Nil
  then show ?case by simp
next
  case (Cons j js)
  then obtain j' js'' where js': "js' = j' # js''" "length js = length js''"
    by (cases js') auto
  have r: "map_sum id forget_outdir (render env t j s) = map_sum id forget_outdir (render env' t j' s')"
    using Cons.prems(1) by (rule render_forget)
  show ?case
  proof (cases "render env t j s")
    case (Inl e)
    then have "render env' t j' s' = Inl e" using r by (cases "render env' t j' s'") auto
    then show ?thesis using Inl by (simp add: js')
  next
    case (Inr s1)
    then obtain s1' where s1': "render env' t j' s' = Inr s1'" "forget_outdir s1 = forget_outdir s1'"
      using r by (cases "render env' t j' s'") auto
    from Cons.IH[OF s1'(2) js'(2)] show ?thesis using Inr s1'(1) by (simp add: js')
  qed
qed

lemma file_jobs_length:
  "length (file_jobs (env\<lparr>drawMap := f\<rparr>) summ ts d listing) = length (file_jobs env summ ts d listing)"
  by (induction listing) (auto split: option.splits)

lemma group_jobs_length:
  "length (group_jobs (env\<lparr>drawMap := f\<rparr>) summ ts d listing)
     = length (group_jobs env summ ts d listing)"
  by (simp add: group_jobs_def file_jobs_length)

lemma render_all_single: "render_all env t [j] st = render env t j st"
  by (simp split: sum.splits)

lemma plot_mode_jobs_none:
  "tmp_dirs st d = None
     \<Longrightarrow> plot_mode env t summ ts d st =
         (if summ = ''week'' \<or> summ = ''month'' \<or> summ = ''all''
          then render_all env t (group_jobs env summ ts d []) st
          else Inl (FileNotFoundError ''No such file or directory''))"
  by (simp add: plot_mode_def group_jobs_def split: sum.splits)

lemma plot_mode_forget:
  "map_sum id forget_outdir (plot_mode (env\<lparr>drawMap := f\<rparr>) t summ ts d st)
     = map_sum id forget_outdir (plot_mode env t summ ts d st)"
proof (cases "tmp_dirs st d")
  case None
  have "length (group_jobs (env\<lparr>drawMap := f\<rparr>) summ ts d []) = length (group_jobs env summ ts d [])"
    by (rule group_jobs_length)
  from render_all_forget[OF refl this]
  show ?thesis by (simp add: plot_mode_jobs_none[OF None])
next
  case (Some listing)
  show ?thesis
    unfolding plot_mode_jobs[OF Some]
    by (rule render_all_forget[OF refl group_jobs_length])
qed

lemma rmtree_forget:
  assumes "forget_outdir s = forget_outdir s'"
  shows "map_sum id forget_outdir (rmtree d s) = map_sum id forget_outdir (rmtree d s')"
  using assms by (auto simp: forget_outdir_eq rmtree_def split: option.splits)

lemma plot_group_forget:
  "map_sum id forget_outdir (plot_group (env\<lparr>drawMap := f\<rparr>) t summ ts d st)
     = map_sum id forget_outdir (plot_group env t summ ts d st)"
proof -
  have m: "map_sum id forget_outdir (plot_mode (env\<lparr>drawMap := f\<rparr>) t summ ts d st)
     = map_sum id forget_outdir (plot_mode env t summ ts d st)"
    by (rule plot_mode_forget)
  show ?thesis
  proof (cases "plot_mode env t summ ts d st")
    case (Inl e)
    then have "plot_mode (env\<lparr>drawMap := f\<rparr>) t summ ts d st = Inl e"
      using m by (cases "plot_mode (env\<lparr>drawMap := f\<rparr>) t summ ts d st") auto
    then show ?thesis using Inl by (simp add: plot_group_def)
  next
    case (Inr s1)
    then obtain s1' where s1': "plot_mode (env\<lparr>drawMap := f\<rparr>) t summ ts d st = Inr s1'"
      "forget_outdir s1' = forget_outdir s1"
      using m by (cases "plot_mode (env\<lparr>drawMap := f\<rparr>) t summ ts d st") auto
    show ?thesis using Inr s1'(1) rmtree_forget[OF s1'(2)] by (simp add: plot_group_def)
  qed
qed

lemma render_all_total:
  assumes "t \<noteq> 0" "\<bar>t\<bar> < 2 ^ 53" "0 \<le> plots_made st" "plots_made st + int (length js) < 2 ^ 53"
  shows "\<exists>st'. render_all env t js st = Inr st'"
  using assms(3,4)
proof (induction js arbitrary: st)
  case Nil
  then show ?case by simp
next
  case (Cons j js)
  have k: "\<bar>plots_made st + 1\<bar> < 2 ^ 53" using Cons.prems by simp
  from newper_of_small[OF assms(1,2) k] obtain v where v: "newper_of (plots_made st + 1) t = Inr v"
    by blast
  then have "\<exists>s1. render env t j st = Inr s1"
    by (simp add: render_def after_render_def Let_def draw_fields)
  then obtain s1 where s1: "render env t j st = Inr s1" by blast
  from render_dirs[OF s1] have "plots_made s1 = plots_made st + 1" by simp
  then have "0 \<le> plots_made s1" "plots_made s1 + int (length js) < 2 ^ 53"
    using Cons.prems by simp_all
  from Cons.IH[OF this] show ?case using s1 by simp
qed

lemma plot_group_total:
  assumes "tmp_dirs st d = Some listing" "t \<noteq> 0" "\<bar>t\<bar> < 2 ^ 53" "0 \<le> plots_made st"
    and "plots_made st + int (length (group_jobs env summ ts d listing)) < 2 ^ 53"
  shows "\<exists>st'. plot_group env t summ ts d st = Inr st'"
proof -
  from render_all_total[OF assms(2,3,4,5)] obtain s1 where
    s1: "render_all env t (group_jobs env summ ts d listing) st = Inr s1" by blast
  from render_all_dirs[OF s1] have "tmp_dirs s1 d = Some listing" using assms(1) by simp
  then show ?thesis using s1 by (simp add: plot_group_def plot_mode_jobs[OF assms(1)] rmtree_def)
qed

lemma handler_dirs:
  assumes "plot_handler env request = Inr (fin, out)"
  shows "tmp_dirs fin = Map.empty \<and> out = package (filelocation request) (outdir_path env) (outdir fin)"
proof -
  from plot_handler_run[OF assms] obtain groups st1 st3 where
    g: "group_files (outputs env) [] start_state = Inr (groups, st1)" and
    pg: "plot_groups env (num_dates env * int (length groups))
          (if timestamp request \<noteq> None then ''NA'' else summarise request)
          (timestamp request) (sorted_items groups)
          ((update_status ''Plotting'' 10 (st1\<lparr>plots_made := 0\<rparr>))\<lparr>oldper := 10\<rparr>) = Inr st3"
    and fin: "fin = update_status ''done'' 100 (update_status ''Formatting output'' 95 st3)"
    and out: "out = package (filelocation request) (outdir_path env) (outdir st3)"
    by blast
  have "\<forall>d. tmp_dirs start_state d \<noteq> None \<longrightarrow> d \<in> snd ` set []"
    by (simp add: start_state_def init_state_def update_status_def)
  from group_files_dirs[OF g this]
  have d1: "\<forall>d. tmp_dirs st1 d \<noteq> None \<longrightarrow> d \<in> snd ` set groups" .
  from plot_groups_steps[OF start_trace[OF g] pg]
  have "\<forall>d. tmp_dirs st3 d = (if d \<in> snd ` set (sorted_items groups) then None
      else tmp_dirs ((update_status ''Plotting'' 10 (st1\<lparr>plots_made := 0\<rparr>))\<lparr>oldper := 10\<rparr>) d)"
    by simp
  then have "\<forall>d. tmp_dirs st3 d = None"
    using d1 by (auto simp: sorted_items_def update_status_def)
  then have "tmp_dirs st3 = Map.empty" by (simp add: fun_eq_iff)
  then show ?thesis by (simp add: fin out update_status_def)
qed

subsection \<open>The example run\<close>

lemma example_groups:
  "group_files (outputs example_env) [] start_state =
     Inr ([(1, 0), (2, 1)],
          start_state\<lparr>next_tmp := 2,
            tmp_dirs := [0 \<mapsto> [''NAME_run_group1_a.txt'', ''NAME_run_group1_b.txt''],
                         1 \<mapsto> [''NAME_run_group2_a.txt'']]\<rparr>)"
  by (simp add: example_env_def start_state_def init_state_def update_status_def endswith_def
      py_int_single is_digit_def digit_val_def mkdtemp_def copy_def add_entry_def)


lemma example_plot_all:
  "map_sum id (\<lambda>(st, out). (statuses st, plots_made st, outdir st, map (tmp_dirs st) [0, 1, 2], out))
     (plot_handler example_env example_request) =
   Inr ([(''Processed plot parameters'', 5), (''Plotting'', 10), (''Plotting'', 52),
         (''Plotting'', 95), (''Formatting output'', 95), (''done'', 100)],
        2, Some [''run1_summed_all.png''], [None, None, None],
        \<lparr>data_format = ''image/png'',
          content = File ''/runs/run1/plots_0/run1_summed_all.png'', archive = None\<rparr>)"
  using example_groups
  by (simp add: plot_handler_def plot_check_bbox_def fgt_def trunc_def glob_match_def
      endswith_def example_env_def example_request_def start_state_def sorted_items_def
      plot_group_def plot_mode_def render_def draw_def after_render_def update_status_def
      init_state_def rmtree_def package_def path_join_def add_entry_def
      newper_1_2 newper_2_2 Let_def)

end
